theory Spec2Isabelle
  imports Complex_Main "HOL-Library.Char_ord" "HOL-Library.List_Lexorder" "HOL-Library.Sublist"
    "HOL-Library.Word"
begin

chapter \<open>The embedding\<close>

section \<open>Fatal errors\<close>

text \<open>
  A failed \<^verbatim>\<open>AMREX_ALWAYS_ASSERT\<close> aborts the run. The value \<open>AssertFailed out msg\<close>
  keeps the text \<open>out\<close> written to \<^verbatim>\<open>amrex::ErrorStream()\<close> before the assertion and
  the condition or message \<open>msg\<close> of the assertion. \<open>OutOfRange\<close> stands for
  \<^verbatim>\<open>std::out_of_range\<close> (thrown by \<^verbatim>\<open>at\<close>) and for an index outside an
  \<^verbatim>\<open>amrex::Vector\<close>. \<open>ParserError\<close> is an abort inside the external expression parser.
\<close>

datatype fatal =
    AssertFailed (error_stream: string) (assertion: string)
  | OutOfRange
  | ParserError string

section \<open>The field-component registry (Fields.H)\<close>

text \<open>\<^verbatim>\<open>struct WhichSlice { enum slice { Next=0, This, Previous, RhomJzIons, Salame, PCIter,
  PCPrevIter, N }; }\<close>: the roles of the slice buffers.\<close>

datatype WhichSlice = Next | This | Previous | RhomJzIons | Salame | PCIter | PCPrevIter

text \<open>
  \<^verbatim>\<open>struct assert_map : std::map<std::string, int>\<close>. A \<^verbatim>\<open>std::map\<close> holds one entry per
  key and iterates in the order of the keys, so it is an association list whose keys
  ascend (strings compare bytewise, as \<^verbatim>\<open>std::string\<close> does).
\<close>

type_synonym assert_map = "(string \<times> int) list"

text \<open>Decimal output of an \<^verbatim>\<open>int\<close> by \<^verbatim>\<open>operator<<\<close>.\<close>

definition digit_char :: "nat \<Rightarrow> char" where
  "digit_char d = char_of (of_char CHR ''0'' + d)"

function show_nat :: "nat \<Rightarrow> string" where
  "show_nat n = (if n < 10 then [digit_char n] else show_nat (n div 10) @ [digit_char (n mod 10)])"
  by pat_completeness auto
termination
  by (relation "measure id") auto

definition show_int :: "int \<Rightarrow> string" where
  "show_int i = (if i < 0 then CHR ''-'' # show_nat (nat (- i)) else show_nat (nat i))"

text \<open>\<^verbatim>\<open>count\<close> and \<^verbatim>\<open>at\<close> of \<^verbatim>\<open>std::map\<close>.\<close>

definition count_key :: "assert_map \<Rightarrow> string \<Rightarrow> nat" where
  "count_key m str = length (filter (\<lambda>p. fst p = str) m)"

definition at_key :: "assert_map \<Rightarrow> string \<Rightarrow> int option" where
  "at_key m str = map_of m str"

text \<open>\<^verbatim>\<open>emplace\<close> inserts at the key's place in the order and leaves an existing entry
  alone.\<close>

fun emplace :: "string \<Rightarrow> int \<Rightarrow> assert_map \<Rightarrow> assert_map" where
  "emplace k v [] = [(k, v)]"
| "emplace k v (p # m) =
     (if k = fst p then p # m
      else if k < fst p then (k, v) # p # m
      else p # emplace k v m)"

text \<open>\<^verbatim>\<open>multi_emplace(int& n, Args...comps) { (emplace(comps, n++),...); }\<close>: the counter
  advances for every name, inserted or not; the new map and counter are returned.\<close>

fun multi_emplace :: "int \<Rightarrow> string list \<Rightarrow> assert_map \<Rightarrow> assert_map \<times> int" where
  "multi_emplace n [] m = (m, n)"
| "multi_emplace n (c # comps) m = multi_emplace (n + 1) comps (emplace c n m)"

definition quoted :: "string \<Rightarrow> string" where
  "quoted s = CHR 0x27 # s @ [CHR 0x27]"

text \<open>One item of the listing: \<^verbatim>\<open>" '" << alloc_str << "' (" << num << "),"\<close>.\<close>

definition alloc_entry :: "string \<times> int \<Rightarrow> string" where
  "alloc_entry p = '' '' @ quoted (fst p) @ '' ('' @ show_int (snd p) @ ''),''"

text \<open>Everything \<^verbatim>\<open>operator[]\<close> writes to the error stream for a missing name.\<close>

definition not_allocated_message :: "assert_map \<Rightarrow> string \<Rightarrow> string" where
  "not_allocated_message m str =
     ''Component '' @ quoted str @ '' is not allocated'' @ [CHR 0x0A] @ ''Fields allocated:''
       @ concat (map alloc_entry m) @ [CHR 0x0A]"

text \<open>\<^verbatim>\<open>int operator[] (const std::string& str) const\<close>.\<close>

definition assert_map_index :: "assert_map \<Rightarrow> string \<Rightarrow> fatal + int" where
  "assert_map_index m str =
     (if count_key m str = 0
      then Inl (AssertFailed (not_allocated_message m str) ''count(str)!=0'')
      else (case at_key m str of Some n \<Rightarrow> Inr n | None \<Rightarrow> Inl OutOfRange))"

text \<open>\<^verbatim>\<open>inline std::array<assert_map, WhichSlice::N> Comps{}\<close>: one map per role. It is
  global state of the program, so the operations below take it as an argument.\<close>

type_synonym comps_registry = "WhichSlice \<Rightarrow> assert_map"

section \<open>Floating-point numbers\<close>

text \<open>
  A \<^verbatim>\<open>double\<close> is a finite real number, an infinity or NaN; the comparisons are those of
  IEEE 754, false whenever NaN takes part. \<^verbatim>\<open>amrex::Real\<close> is such a type (\<^verbatim>\<open>double\<close>, or
  \<^verbatim>\<open>float\<close> in a single-precision build). The sign of a zero is not kept: it decides no
  comparison and no result below.
\<close>

datatype double = Finite real | PlusInf | MinusInf | NaN

fun double_le :: "double \<Rightarrow> double \<Rightarrow> bool" where
  "double_le NaN b = False"
| "double_le a NaN = False"
| "double_le MinusInf b = True"
| "double_le a PlusInf = True"
| "double_le (Finite a) (Finite b) = (a \<le> b)"
| "double_le PlusInf b = False"
| "double_le a MinusInf = False"

definition double_ge :: "double \<Rightarrow> double \<Rightarrow> bool" where
  "double_ge a b = double_le b a"

fun double_lt :: "double \<Rightarrow> double \<Rightarrow> bool" where
  "double_lt NaN b = False"
| "double_lt a NaN = False"
| "double_lt (Finite a) (Finite b) = (a < b)"
| "double_lt PlusInf b = False"
| "double_lt a MinusInf = False"
| "double_lt MinusInf b = True"
| "double_lt a PlusInf = True"

definition double_gt :: "double \<Rightarrow> double \<Rightarrow> bool" where
  "double_gt a b = double_lt b a"

text \<open>
  The arithmetic. An operation on finite numbers gives the exact result rounded to the
  type: \<open>fl\<close> is the rounding of a real number (to a finite number or, on overflow, to an
  infinity). It is a parameter, so that what is proved holds for every precision and
  rounding mode. Negation is exact.
\<close>

fun double_neg :: "double \<Rightarrow> double" where
  "double_neg (Finite a) = Finite (- a)"
| "double_neg PlusInf = MinusInf"
| "double_neg MinusInf = PlusInf"
| "double_neg NaN = NaN"

fun double_add :: "(real \<Rightarrow> double) \<Rightarrow> double \<Rightarrow> double \<Rightarrow> double" where
  "double_add fl (Finite a) (Finite b) = fl (a + b)"
| "double_add fl NaN b = NaN"
| "double_add fl a NaN = NaN"
| "double_add fl PlusInf MinusInf = NaN"
| "double_add fl MinusInf PlusInf = NaN"
| "double_add fl PlusInf b = PlusInf"
| "double_add fl MinusInf b = MinusInf"
| "double_add fl a PlusInf = PlusInf"
| "double_add fl a MinusInf = MinusInf"

definition double_sub :: "(real \<Rightarrow> double) \<Rightarrow> double \<Rightarrow> double \<Rightarrow> double" where
  "double_sub fl a b = double_add fl a (double_neg b)"

fun double_sgn :: "double \<Rightarrow> int" where
  "double_sgn (Finite a) = (if a < 0 then - 1 else if a = 0 then 0 else 1)"
| "double_sgn PlusInf = 1"
| "double_sgn MinusInf = - 1"
| "double_sgn NaN = 0"

fun double_mul :: "(real \<Rightarrow> double) \<Rightarrow> double \<Rightarrow> double \<Rightarrow> double" where
  "double_mul fl (Finite a) (Finite b) = fl (a * b)"
| "double_mul fl NaN b = NaN"
| "double_mul fl a NaN = NaN"
| "double_mul fl a b =
     (if double_sgn a * double_sgn b = 0 then NaN
      else if double_sgn a * double_sgn b > 0 then PlusInf else MinusInf)"

text \<open>
  \<^verbatim>\<open>std::fmod(a, b)\<close> is \<open>a - b * n\<close> with \<open>n\<close> the quotient \<open>a / b\<close> rounded towards
  zero. It is computed without rounding. It is NaN when \<open>a\<close> is infinite or \<open>b\<close> is zero,
  and \<open>a\<close> when \<open>b\<close> is infinite.
\<close>

definition trunc :: "real \<Rightarrow> int" where
  "trunc r = (if r < 0 then \<lceil>r\<rceil> else \<lfloor>r\<rfloor>)"

fun double_fmod :: "double \<Rightarrow> double \<Rightarrow> double" where
  "double_fmod (Finite a) (Finite b) =
     (if b = 0 then NaN else Finite (a - b * of_int (trunc (a / b))))"
| "double_fmod (Finite a) PlusInf = Finite a"
| "double_fmod (Finite a) MinusInf = Finite a"
| "double_fmod a b = NaN"

subsection \<open>Rounding to binary64\<close>

text \<open>
  The rounding of IEEE 754 binary64 in the default mode, to nearest with ties to even:
  a number \<open>r\<close> with \<open>2\<^sup>k \<le> |r| < 2\<^sup>k\<^sup>+\<^sup>1\<close> is rounded to a multiple of \<open>2\<^sup>k\<^sup>-\<^sup>5\<^sup>2\<close> (of
  \<open>2\<^sup>-\<^sup>1\<^sup>0\<^sup>7\<^sup>4\<close> in the subnormal range), and a result beyond the largest finite number
  is an infinity.
\<close>

definition rne :: "real \<Rightarrow> int" where
  "rne q =
     (if q - of_int \<lfloor>q\<rfloor> < 1 / 2 then \<lfloor>q\<rfloor>
      else if q - of_int \<lfloor>q\<rfloor> > 1 / 2 then \<lfloor>q\<rfloor> + 1
      else if even \<lfloor>q\<rfloor> then \<lfloor>q\<rfloor> else \<lfloor>q\<rfloor> + 1)"

definition binade :: "real \<Rightarrow> int" where
  "binade r = \<lfloor>log 2 \<bar>r\<bar>\<rfloor>"

definition round_to_ulp :: "int \<Rightarrow> real \<Rightarrow> real" where
  "round_to_ulp e r = of_int (rne (r / 2 powi e)) * 2 powi e"

definition DBL_MAX :: real where
  "DBL_MAX = (2 ^ 53 - 1) * 2 ^ 971"

definition round_double :: "real \<Rightarrow> double" where
  "round_double r =
     (if r = 0 then Finite 0
      else
        let v = round_to_ulp (max (binade r - 52) (- 1074)) r
        in if v > DBL_MAX then PlusInf else if v < - DBL_MAX then MinusInf else Finite v)"

section \<open>Particle boundary conditions (EnforceBC)\<close>

text \<open>\<^verbatim>\<open>namespace ParticleBoundary { enum type { Reflecting, Periodic, Absorbing }; }\<close>\<close>

datatype ParticleBoundary = Reflecting | Periodic | Absorbing

text \<open>The members of \<^verbatim>\<open>struct EnforceBC\<close>; a \<^verbatim>\<open>GpuArray<Real, 2>\<close> is a pair, index 0 first.\<close>

record EnforceBC =
  m_particle_boundary :: ParticleBoundary
  m_plo :: "double \<times> double"
  m_phi :: "double \<times> double"

text \<open>
  What the functor uses of the particle tile data: the real components
  (\<^verbatim>\<open>ptd.rdata(comp)[ip]\<close>, of which it only sets a weight to zero) and whether the id of a
  particle is valid (\<^verbatim>\<open>ptd.id(ip).make_invalid()\<close> makes it invalid).
\<close>

record PTD =
  rdata :: "int \<Rightarrow> int \<Rightarrow> real"
  id_valid :: "int \<Rightarrow> bool"

definition set_rdata :: "PTD \<Rightarrow> int \<Rightarrow> int \<Rightarrow> real \<Rightarrow> PTD" where
  "set_rdata ptd icomp ip v = ptd\<lparr>rdata := (rdata ptd)(icomp := (rdata ptd icomp)(ip := v))\<rparr>"

definition make_invalid :: "PTD \<Rightarrow> int \<Rightarrow> PTD" where
  "make_invalid ptd ip = ptd\<lparr>id_valid := (id_valid ptd)(ip := False)\<rparr>"

text \<open>The returned flag and the arguments passed by reference, after the call.\<close>

record bc_result =
  invalid :: bool
  ptd_out :: PTD
  x_out :: double
  y_out :: double
  ux_out :: double
  uy_out :: double

text \<open>
  The reflecting branch treats each axis with the same statements:
  \<^verbatim>\<open>x = std::fmod(x - m_plo[0], 2*len_x); if (x < 0) x += 2*len_x; x += m_plo[0];
  if (x > m_phi[0]) { x = 2*m_phi[0] - x; ux = -ux; }\<close>.
  Every subtraction, addition and product is rounded by \<open>fl\<close>.
\<close>

definition reflect_axis ::
  "(real \<Rightarrow> double) \<Rightarrow> double \<Rightarrow> double \<Rightarrow> double \<Rightarrow> double \<Rightarrow> double \<Rightarrow> double \<times> double" where
  "reflect_axis fl lo hi len x u =
     (let x1 = double_fmod (double_sub fl x lo) (double_mul fl (Finite 2) len);
          x2 = (if double_lt x1 (Finite 0)
                then double_add fl x1 (double_mul fl (Finite 2) len) else x1);
          x3 = double_add fl x2 lo
      in if double_gt x3 hi
         then (double_sub fl (double_mul fl (Finite 2) hi) x3, double_neg u)
         else (x3, u))"

text \<open>The periodic branch, for one axis:
  \<^verbatim>\<open>x = std::fmod(x - m_plo[0], len_x); if (x < 0) x += len_x; x += m_plo[0];\<close>\<close>

definition wrap_axis :: "(real \<Rightarrow> double) \<Rightarrow> double \<Rightarrow> double \<Rightarrow> double \<Rightarrow> double" where
  "wrap_axis fl lo len x =
     (let x1 = double_fmod (double_sub fl x lo) len;
          x2 = (if double_lt x1 (Finite 0) then double_add fl x1 len else x1)
      in double_add fl x2 lo)"

text \<open>\<^verbatim>\<open>bool operator() (const PTD& ptd, const int ip, Real& x, Real& y, Real& ux, Real& uy,
  const int w_index)\<close>, for the rounding \<open>fl\<close> of the arithmetic.\<close>

definition EnforceBC_call ::
  "(real \<Rightarrow> double) \<Rightarrow> EnforceBC \<Rightarrow> PTD \<Rightarrow> int \<Rightarrow> double \<Rightarrow> double \<Rightarrow> double \<Rightarrow> double \<Rightarrow> int
     \<Rightarrow> bc_result" where
  "EnforceBC_call fl bc ptd ip x y ux uy w_index =
     (if double_lt x (fst (m_plo bc)) \<or> double_lt y (snd (m_plo bc))
         \<or> double_gt x (fst (m_phi bc)) \<or> double_gt y (snd (m_phi bc))
      then
        let len_x = double_sub fl (fst (m_phi bc)) (fst (m_plo bc));
            len_y = double_sub fl (snd (m_phi bc)) (snd (m_plo bc))
        in if m_particle_boundary bc = Reflecting then
             (let rx = reflect_axis fl (fst (m_plo bc)) (fst (m_phi bc)) len_x x ux;
                  ry = reflect_axis fl (snd (m_plo bc)) (snd (m_phi bc)) len_y y uy
              in \<lparr>invalid = False, ptd_out = ptd,
                  x_out = fst rx, y_out = fst ry, ux_out = snd rx, uy_out = snd ry\<rparr>)
           else if m_particle_boundary bc = Periodic then
             \<lparr>invalid = False, ptd_out = ptd,
              x_out = wrap_axis fl (fst (m_plo bc)) len_x x,
              y_out = wrap_axis fl (snd (m_plo bc)) len_y y,
              ux_out = ux, uy_out = uy\<rparr>
           else
             \<lparr>invalid = True, ptd_out = make_invalid (set_rdata ptd w_index ip 0) ip,
              x_out = x, y_out = y, ux_out = ux, uy_out = uy\<rparr>
      else
        \<lparr>invalid = False, ptd_out = ptd,
         x_out = x, y_out = y, ux_out = ux, uy_out = uy\<rparr>)"

text \<open>\<^verbatim>\<open>CheckDomainBounds::contains\<close> (Fields.H), with \<^verbatim>\<open>lo\<close> and \<^verbatim>\<open>hi\<close> as pairs.\<close>

definition contains :: "double \<times> double \<Rightarrow> double \<times> double \<Rightarrow> double \<Rightarrow> double \<Rightarrow> bool" where
  "contains lo hi x y \<longleftrightarrow>
     double_lt (fst lo) x \<and> double_lt x (fst hi) \<and> double_lt (snd lo) y \<and> double_lt y (snd hi)"

subsection \<open>Exact arithmetic on a grid\<close>




text \<open>Data for the examples: the unit square; the box from the binary64 numbers nearest
  to \<open>-0.1\<close> and \<open>0.3\<close>; a position one unit in the last place below that lower edge; and
  tile data where every particle has weight 1 and a valid id.\<close>

definition unit_box :: "ParticleBoundary \<Rightarrow> EnforceBC" where
  "unit_box b = \<lparr>m_particle_boundary = b, m_plo = (Finite 0, Finite 0),
                 m_phi = (Finite 1, Finite 1)\<rparr>"

definition tenth :: real where
  "tenth = 7205759403792794 / 2 ^ 56"

definition three_tenths :: real where
  "three_tenths = 5404319552844595 / 2 ^ 54"

definition tenths_box :: "ParticleBoundary \<Rightarrow> EnforceBC" where
  "tenths_box b = \<lparr>m_particle_boundary = b, m_plo = (Finite (- tenth), Finite (- tenth)),
                   m_phi = (Finite three_tenths, Finite three_tenths)\<rparr>"

definition below_tenth :: real where
  "below_tenth = - (7205759403792795 / 2 ^ 56)"

definition example_ptd :: PTD where
  "example_ptd = \<lparr>rdata = (\<lambda>icomp ip. 1), id_valid = (\<lambda>ip. True)\<rparr>"

text \<open>A registry for the examples: \<^verbatim>\<open>Bx\<close> and \<^verbatim>\<open>By\<close> in the current slice (indices 0
  and 1), \<^verbatim>\<open>Bx\<close> in the previous slice (index 2).\<close>

definition example_Comps :: comps_registry where
  "example_Comps role =
     (if role = This then [(''Bx'', 0), (''By'', 1)]
      else if role = Previous then [(''Bx'', 2)]
      else [])"

section \<open>Slice buffers and Fields::shift (Fields.H)\<close>

text \<open>
  An \<^verbatim>\<open>Array3<amrex::Real>\<close> of a slice is read as \<^verbatim>\<open>array(i,j,n)\<close> with \<open>n\<close> the
  component. The values are only copied, so their type is left open. A \<^verbatim>\<open>MultiFab\<close> is
  its array and the cells \<open>(i, j)\<close> that the loops over \<^verbatim>\<open>mfi.growntilebox()\<close> visit.
\<close>

record 'a MultiFab =
  cells :: "(int \<times> int) set"
  array :: "int \<Rightarrow> int \<Rightarrow> int \<Rightarrow> 'a"

text \<open>\<^verbatim>\<open>amrex::Vector<amrex::MultiFab> m_slices\<close>: one \<^verbatim>\<open>MultiFab\<close> per level.\<close>

record 'a Fields =
  m_slices :: "'a MultiFab list"

text \<open>\<^verbatim>\<open>{Comps[islice][comps]...}\<close>: the names are looked up from left to right and the
  first missing one aborts.\<close>

fun comp_indices :: "assert_map \<Rightarrow> string list \<Rightarrow> fatal + int list" where
  "comp_indices m [] = Inr []"
| "comp_indices m (c # cs) =
     (case assert_map_index m c of
        Inl e \<Rightarrow> Inl e
      | Inr i \<Rightarrow> (case comp_indices m cs of Inl e \<Rightarrow> Inl e | Inr js \<Rightarrow> Inr (i # js)))"

text \<open>The kernel of \<^verbatim>\<open>shift\<close> at one cell, on the components \<open>a\<close> of that cell:
  \<^verbatim>\<open>for (int n=0; n<ncomps; ++n) { array(i,j,c_idx_dst[n]) = array(i,j,c_idx_src[n]); }\<close>.
  The list pairs \<^verbatim>\<open>c_idx_dst[n]\<close> with \<^verbatim>\<open>c_idx_src[n]\<close>.\<close>

fun shift_kernel :: "(int \<times> int) list \<Rightarrow> (int \<Rightarrow> 'a) \<Rightarrow> (int \<Rightarrow> 'a)" where
  "shift_kernel [] a = a"
| "shift_kernel (p # ps) a = shift_kernel ps (a(fst p := a (snd p)))"

text \<open>\<^verbatim>\<open>void shift (const int lev, const int islice_dst, const int islice_src, Args...comps)\<close>.
  The kernel runs at every cell of the level's slice; the cells do not interact.\<close>

definition shift ::
  "comps_registry \<Rightarrow> 'a Fields \<Rightarrow> int \<Rightarrow> WhichSlice \<Rightarrow> WhichSlice \<Rightarrow> string list
     \<Rightarrow> fatal + 'a Fields" where
  "shift Comps F lev islice_dst islice_src comps =
     (case comp_indices (Comps islice_src) comps of
        Inl e \<Rightarrow> Inl e
      | Inr c_idx_src \<Rightarrow>
          (case comp_indices (Comps islice_dst) comps of
             Inl e \<Rightarrow> Inl e
           | Inr c_idx_dst \<Rightarrow>
               if 0 \<le> lev \<and> nat lev < length (m_slices F) then
                 let mfab = m_slices F ! nat lev;
                     arr = (\<lambda>i j. if (i, j) \<in> cells mfab
                                   then shift_kernel (zip c_idx_dst c_idx_src) (array mfab i j)
                                   else array mfab i j)
                 in Inr (F\<lparr>m_slices := (m_slices F)[nat lev := mfab\<lparr>array := arr\<rparr>]\<rparr>)
               else Inl OutOfRange))"

text \<open>A shift from \<open>src\<close> to \<open>dst\<close> followed by the shift from \<open>dst\<close> to \<open>src\<close>.\<close>

definition shift_there_and_back ::
  "comps_registry \<Rightarrow> 'a Fields \<Rightarrow> int \<Rightarrow> WhichSlice \<Rightarrow> WhichSlice \<Rightarrow> string list
     \<Rightarrow> fatal + 'a Fields" where
  "shift_there_and_back Comps F lev islice_dst islice_src comps =
     (case shift Comps F lev islice_dst islice_src comps of
        Inl e \<Rightarrow> Inl e
      | Inr F1 \<Rightarrow> shift Comps F1 lev islice_src islice_dst comps)"

text \<open>The value of a named component of a role at a cell, as
  \<^verbatim>\<open>getField(lev, islice, comp)\<close> would show it.\<close>

definition comp_value ::
  "comps_registry \<Rightarrow> 'a Fields \<Rightarrow> int \<Rightarrow> WhichSlice \<Rightarrow> string \<Rightarrow> int \<Rightarrow> int \<Rightarrow> 'a option" where
  "comp_value Comps F lev islice c i j =
     (case assert_map_index (Comps islice) c of
        Inl e \<Rightarrow> None
      | Inr n \<Rightarrow> Some (array (m_slices F ! nat lev) i j n))"

definition result_comp_value ::
  "comps_registry \<Rightarrow> fatal + 'a Fields \<Rightarrow> int \<Rightarrow> WhichSlice \<Rightarrow> string \<Rightarrow> int \<Rightarrow> int
     \<Rightarrow> 'a option" where
  "result_comp_value Comps r lev islice c i j =
     (case r of Inl e \<Rightarrow> None | Inr F \<Rightarrow> comp_value Comps F lev islice c i j)"

text \<open>Fields for the examples: one level with the single cell \<open>(0, 0)\<close>, where component
  \<open>n\<close> holds the number \<open>n + 10\<close>.\<close>

definition example_Fields :: "int Fields" where
  "example_Fields = \<lparr>m_slices = [\<lparr>cells = {(0, 0)}, array = (\<lambda>i j n. n + 10)\<rparr>]\<rparr>"

section \<open>Parsing into a narrower type (Parser.H)\<close>

text \<open>\<^verbatim>\<open>std::numeric_limits<float>::max()\<close> is \<open>(2 - 2\<^sup>-\<^sup>2\<^sup>3) * 2\<^sup>1\<^sup>2\<^sup>7\<close>, and
  \<^verbatim>\<open>lowest()\<close> is its negative.\<close>

definition FLT_MAX :: real where
  "FLT_MAX = (2 ^ 24 - 1) * 2 ^ 104"

definition FLT_LOWEST :: real where
  "FLT_LOWEST = - FLT_MAX"

text \<open>
  \<^verbatim>\<open>fillWithParser (pp, str, float& val)\<close>. The expression parser of AMReX is not part
  of the repository: \<open>eval\<close> is what \<^verbatim>\<open>pp.makeParser(str, {}).compileHost<0>()()\<close> returns
  (or its abort), and \<open>cast\<close> is \<^verbatim>\<open>static_cast<float>\<close>. The result is the value stored
  in \<^verbatim>\<open>val\<close>.
\<close>

definition fillWithParser_float ::
  "(string \<Rightarrow> fatal + double) \<Rightarrow> (double \<Rightarrow> 'f) \<Rightarrow> string \<Rightarrow> fatal + 'f" where
  "fillWithParser_float eval cast str =
     (case eval str of
        Inl e \<Rightarrow> Inl e
      | Inr v \<Rightarrow>
          if double_le v (Finite FLT_MAX) \<and> double_ge v (Finite FLT_LOWEST)
          then Inr (cast v)
          else Inl (AssertFailed [] ''Error: Overflow detected when casting to float''))"

text \<open>\<^verbatim>\<open>amrex::Long\<close> has 64 bits and \<^verbatim>\<open>int\<close> has 32, both signed. The limits of
  \<^verbatim>\<open>int\<close> are converted to \<^verbatim>\<open>amrex::Long\<close> for the comparison, and
  \<^verbatim>\<open>static_cast<int>\<close> keeps the low 32 bits.\<close>

definition INT_MAX :: "32 word" where
  "INT_MAX = 0x7FFFFFFF"

definition INT_LOWEST :: "32 word" where
  "INT_LOWEST = 0x80000000"

definition fillWithParser_int ::
  "(string \<Rightarrow> fatal + 64 word) \<Rightarrow> string \<Rightarrow> fatal + 32 word" where
  "fillWithParser_int ieval str =
     (case ieval str of
        Inl e \<Rightarrow> Inl e
      | Inr v \<Rightarrow>
          if v \<le>s scast INT_MAX \<and> scast INT_LOWEST \<le>s v
          then Inr (ucast v)
          else Inl (AssertFailed [] ''Error: Overflow detected when casting to int''))"

text \<open>Evaluators for the examples: the values the parser gives for four inputs, and a cast
  that is exact on the numbers used.\<close>

definition example_eval :: "string \<Rightarrow> fatal + double" where
  "example_eval str =
     (if str = ''1e39'' then Inr (Finite (10 ^ 39))
      else if str = ''1.5'' then Inr (Finite (3 / 2))
      else Inl (ParserError str))"

definition example_cast :: "double \<Rightarrow> real" where
  "example_cast v = (case v of Finite r \<Rightarrow> r | _ \<Rightarrow> 0)"

definition example_ieval :: "string \<Rightarrow> fatal + 64 word" where
  "example_ieval str =
     (if str = ''2^31'' then Inr 2147483648
      else if str = ''-7'' then Inr (- 7)
      else Inl (ParserError str))"

section \<open>Brace substitution in string values (Parser.H)\<close>

subsection \<open>The operations of \<^verbatim>\<open>std::string\<close> that the function uses\<close>

text \<open>\<^verbatim>\<open>s.find(pat)\<close>: the first position where \<open>pat\<close> occurs, \<open>None\<close> for
  \<^verbatim>\<open>npos\<close>.\<close>

fun find_sub :: "string \<Rightarrow> string \<Rightarrow> nat option" where
  "find_sub pat [] = (if pat = [] then Some 0 else None)"
| "find_sub pat (c # s) =
     (if prefix pat (c # s) then Some 0 else map_option Suc (find_sub pat s))"

text \<open>\<^verbatim>\<open>s.find(pat, pos)\<close>: the first occurrence at or after \<open>pos\<close>.\<close>

definition find_sub_from :: "string \<Rightarrow> string \<Rightarrow> nat \<Rightarrow> nat option" where
  "find_sub_from pat s pos =
     (if pos > length s then None else map_option (\<lambda>i. i + pos) (find_sub pat (drop pos s)))"

text \<open>\<^verbatim>\<open>s.rfind(pat)\<close>: the last position where \<open>pat\<close> occurs.\<close>

fun rfind_sub :: "string \<Rightarrow> string \<Rightarrow> nat option" where
  "rfind_sub pat [] = (if pat = [] then Some 0 else None)"
| "rfind_sub pat (c # s) =
     (case rfind_sub pat s of
        Some i \<Rightarrow> Some (Suc i)
      | None \<Rightarrow> if prefix pat (c # s) then Some 0 else None)"

text \<open>\<^verbatim>\<open>s.replace(pos, n, r)\<close> and \<^verbatim>\<open>s.substr(pos, n)\<close>, for a position inside the
  string (every position below comes from a search in the same string).\<close>

definition replace :: "string \<Rightarrow> nat \<Rightarrow> nat \<Rightarrow> string \<Rightarrow> string" where
  "replace s pos n r = take pos s @ r @ drop (pos + n) s"

definition substr :: "string \<Rightarrow> nat \<Rightarrow> nat \<Rightarrow> string" where
  "substr s pos n = take n (drop pos s)"

lemma find_sub_bound: "find_sub pat s = Some i \<Longrightarrow> i + length pat \<le> length s"
proof (induction s arbitrary: i)
  case Nil
  then show ?case by (simp split: if_splits)
next
  case (Cons c s)
  then show ?case
    by (auto dest: prefix_length_le split: if_splits)
qed

lemma rfind_sub_bound: "rfind_sub pat s = Some i \<Longrightarrow> i + length pat \<le> length s"
proof (induction s arbitrary: i)
  case Nil
  then show ?case by (simp split: if_splits)
next
  case (Cons c s)
  then show ?case
    by (auto dest: prefix_length_le split: if_splits option.splits)
qed

lemma find_sub_char_at: "find_sub [c] s = Some i \<Longrightarrow> i < length s \<and> s ! i = c"
proof (induction s arbitrary: i)
  case Nil
  then show ?case by simp
next
  case (Cons d s)
  then show ?case
    by (auto split: if_splits)
qed

lemma rfind_sub_char_at: "rfind_sub [c] s = Some i \<Longrightarrow> i < length s \<and> s ! i = c"
proof (induction s arbitrary: i)
  case Nil
  then show ?case by simp
next
  case (Cons d s)
  then show ?case
    by (auto split: if_splits option.splits)
qed

lemma count_replace_char:
  assumes "i < length s" "s ! i = c" "c \<notin> set r"
  shows "count_list (replace s i 1 r) c < count_list s c"
proof -
  have "s = take i s @ s ! i # drop (Suc i) s"
    using assms(1) by (rule id_take_nth_drop)
  then have "count_list s c = count_list (take i s) c + 1 + count_list (drop (Suc i) s) c"
    using assms(2) by (metis add.assoc count_list.simps(2) count_list_append plus_1_eq_Suc
        add.commute)
  moreover have "count_list r c = 0" using assms(3) by (simp add: count_list_0_iff)
  ultimately show ?thesis by (simp add: replace_def)
qed

subsection \<open>Escaped braces\<close>

text \<open>\<^verbatim>\<open>while ( (pos=loc_str.find("{{")) != npos) { loc_str.replace(pos, 2, {char(1)}); }\<close>\<close>

function escape_open :: "string \<Rightarrow> string" where
  "escape_open loc_str =
     (case find_sub ''{{'' loc_str of
        None \<Rightarrow> loc_str
      | Some pos \<Rightarrow> escape_open (replace loc_str pos 2 [CHR 0x01]))"
  by pat_completeness auto
termination
proof (relation "measure length")
  show "wf (measure length)" by simp
next
  fix loc_str pos
  assume "find_sub ''{{'' loc_str = Some pos"
  then have "pos + 2 \<le> length loc_str" by (auto dest: find_sub_bound)
  then show "(replace loc_str pos 2 [CHR 0x01], loc_str) \<in> measure length"
    by (simp add: replace_def)
qed

text \<open>\<^verbatim>\<open>while ( (pos=loc_str.rfind("}}")) != npos) { loc_str.replace(pos, 2, {char(2)}); }\<close>\<close>

function escape_close :: "string \<Rightarrow> string" where
  "escape_close loc_str =
     (case rfind_sub ''}}'' loc_str of
        None \<Rightarrow> loc_str
      | Some pos \<Rightarrow> escape_close (replace loc_str pos 2 [CHR 0x02]))"
  by pat_completeness auto
termination
proof (relation "measure length")
  show "wf (measure length)" by simp
next
  fix loc_str pos
  assume "rfind_sub ''}}'' loc_str = Some pos"
  then have "pos + 2 \<le> length loc_str" by (auto dest: rfind_sub_bound)
  then show "(replace loc_str pos 2 [CHR 0x02], loc_str) \<in> measure length"
    by (simp add: replace_def)
qed

text \<open>The back-transformation:
  \<^verbatim>\<open>while ( (pos=loc_str.find(char(1))) != npos) { loc_str.replace(pos, 1, "{"); }\<close> and
  \<^verbatim>\<open>while ( (pos=loc_str.rfind(char(2))) != npos) { loc_str.replace(pos, 1, "}"); }\<close>\<close>

function unescape_open :: "string \<Rightarrow> string" where
  "unescape_open loc_str =
     (case find_sub [CHR 0x01] loc_str of
        None \<Rightarrow> loc_str
      | Some pos \<Rightarrow> unescape_open (replace loc_str pos 1 ''{''))"
  by pat_completeness auto
termination
proof (relation "measure (\<lambda>s. count_list s (CHR 0x01))")
  show "wf (measure (\<lambda>s. count_list s (CHR 0x01)))" by simp
next
  fix loc_str pos
  assume "find_sub [CHR 0x01] loc_str = Some pos"
  then have "pos < length loc_str" "loc_str ! pos = CHR 0x01"
    by (auto dest: find_sub_char_at)
  then have "count_list (replace loc_str pos 1 ''{'') (CHR 0x01) < count_list loc_str (CHR 0x01)"
    by (rule count_replace_char) simp
  then show "(replace loc_str pos 1 ''{'', loc_str) \<in> measure (\<lambda>s. count_list s (CHR 0x01))"
    by simp
qed

function unescape_close :: "string \<Rightarrow> string" where
  "unescape_close loc_str =
     (case rfind_sub [CHR 0x02] loc_str of
        None \<Rightarrow> loc_str
      | Some pos \<Rightarrow> unescape_close (replace loc_str pos 1 ''}''))"
  by pat_completeness auto
termination
proof (relation "measure (\<lambda>s. count_list s (CHR 0x02))")
  show "wf (measure (\<lambda>s. count_list s (CHR 0x02)))" by simp
next
  fix loc_str pos
  assume "rfind_sub [CHR 0x02] loc_str = Some pos"
  then have "pos < length loc_str" "loc_str ! pos = CHR 0x02"
    by (auto dest: rfind_sub_char_at)
  then have "count_list (replace loc_str pos 1 ''}'') (CHR 0x02) < count_list loc_str (CHR 0x02)"
    by (rule count_replace_char) simp
  then show "(replace loc_str pos 1 ''}'', loc_str) \<in> measure (\<lambda>s. count_list s (CHR 0x02))"
    by simp
qed

subsection \<open>The substitution loop\<close>

text \<open>
  The two loops that drop leading and trailing spaces of the text between the braces.
  \<^verbatim>\<open>loc_str.at(i)\<close> is evaluated before the test of the count and throws
  \<^verbatim>\<open>std::out_of_range\<close> for an index outside the string; the index
  \<^verbatim>\<open>pos_start_trim + pos_count_trim - 1\<close> wraps around when the sum is zero.
\<close>

fun trim_leading :: "string \<Rightarrow> nat \<Rightarrow> nat \<Rightarrow> fatal + nat \<times> nat" where
  "trim_leading loc_str pos_start_trim pos_count_trim =
     (if pos_start_trim < length loc_str then
        (if loc_str ! pos_start_trim = CHR '' '' \<and> pos_count_trim > 0
         then trim_leading loc_str (pos_start_trim + 1) (pos_count_trim - 1)
         else Inr (pos_start_trim, pos_count_trim))
      else Inl OutOfRange)"

fun trim_trailing :: "string \<Rightarrow> nat \<Rightarrow> nat \<Rightarrow> fatal + nat \<times> nat" where
  "trim_trailing loc_str pos_start_trim pos_count_trim =
     (if 0 < pos_start_trim + pos_count_trim
         \<and> pos_start_trim + pos_count_trim - 1 < length loc_str then
        (if loc_str ! (pos_start_trim + pos_count_trim - 1) = CHR '' '' \<and> pos_count_trim > 0
         then trim_trailing loc_str pos_start_trim (pos_count_trim - 1)
         else Inr (pos_start_trim, pos_count_trim))
      else Inl OutOfRange)"

definition trim_spaces :: "string \<Rightarrow> nat \<Rightarrow> nat \<Rightarrow> fatal + nat \<times> nat" where
  "trim_spaces loc_str pos_start_trim pos_count_trim =
     (case trim_leading loc_str pos_start_trim pos_count_trim of
        Inl e \<Rightarrow> Inl e
      | Inr p \<Rightarrow> trim_trailing loc_str (fst p) (snd p))"

text \<open>What is written to the error stream before the two assertions.\<close>

definition unclosed_brace_message :: "string \<Rightarrow> string" where
  "unclosed_brace_message str =
     ''Bad format for input '' @ quoted str @ '', unclosed brace!'' @ [CHR 0x0A]"

definition recursive_symbol_message :: "string \<Rightarrow> string \<Rightarrow> string" where
  "recursive_symbol_message str parse_string =
     ''Expression '' @ quoted str @ '' contains recursive symbol '' @ quoted parse_string
       @ ''!'' @ [CHR 0x0A]"

text \<open>
  The loop \<^verbatim>\<open>while ( (pos=loc_str.rfind("{")) != npos)\<close> of
  \<^verbatim>\<open>fillWithParser (pp, str, std::string& val, bool do_escape_backtransform)\<close>.

  \<^item> \<open>my_constants\<close> is the table of \<^verbatim>\<open>amrex::ParmParse pp_my_constants("my_constants")\<close>:
    \<^verbatim>\<open>contains\<close> asks whether a name has an entry and \<^verbatim>\<open>get\<close> reads it.
  \<^item> \<open>eval\<close> is the parser of AMReX called by the \<^verbatim>\<open>double\<close> overload (not part of the
    repository), and \<open>show_double\<close> is \<^verbatim>\<open>ss << parse_val\<close>.
  \<^item> \<open>recursive_symbols\<close> is the static set of the symbols being expanded. A symbol is
    inserted before the nested call and erased after it, so the set is the same after a
    call that returns; the model passes it down.
  \<^item> The nested call \<^verbatim>\<open>fillWithParser(pp, replacer, parse_val, false)\<close> escapes the braces
    of \<open>replacer\<close>, runs this loop on the result and, without the back-transformation,
    returns what the loop leaves.

  The loop may recurse without end as far as its text shows, so it is a partial function:
  \<open>None\<close> means that it does not return.
\<close>

partial_function (option) subst_braces ::
  "(string \<times> string) list \<Rightarrow> (string \<Rightarrow> fatal + double) \<Rightarrow> (double \<Rightarrow> string)
     \<Rightarrow> string list \<Rightarrow> string \<Rightarrow> string \<Rightarrow> (fatal + string) option" where
  "subst_braces my_constants eval show_double recursive_symbols str loc_str =
     (case rfind_sub ''{'' loc_str of
        None \<Rightarrow> Some (Inr loc_str)
      | Some pos \<Rightarrow>
          (case find_sub_from ''}'' loc_str pos of
             None \<Rightarrow>
               Some (Inl (AssertFailed (unclosed_brace_message str)
                             ''pos_end != std::string::npos''))
           | Some pos_end \<Rightarrow>
               (case trim_spaces loc_str (pos + 1) (pos_end - pos - 1) of
                  Inl e \<Rightarrow> Some (Inl e)
                | Inr trimmed \<Rightarrow>
                    if snd trimmed = 0 then
                      subst_braces my_constants eval show_double recursive_symbols str
                        (replace loc_str pos (pos_end - pos + 1) [])
                    else
                      (case map_of my_constants (substr loc_str (fst trimmed) (snd trimmed)) of
                         Some replacer \<Rightarrow>
                           if substr loc_str (fst trimmed) (snd trimmed) \<in> set recursive_symbols
                           then
                             Some (Inl (AssertFailed
                               (recursive_symbol_message str
                                  (substr loc_str (fst trimmed) (snd trimmed)))
                               ''recursive_symbols.count(parse_string) == 0''))
                           else
                             Option.bind
                               (subst_braces my_constants eval show_double
                                  (substr loc_str (fst trimmed) (snd trimmed) # recursive_symbols)
                                  replacer (escape_close (escape_open replacer)))
                               (\<lambda>r. case r of
                                      Inl e \<Rightarrow> Some (Inl e)
                                    | Inr parse_val \<Rightarrow>
                                        subst_braces my_constants eval show_double
                                          recursive_symbols str
                                          (replace loc_str pos (pos_end - pos + 1) parse_val))
                       | None \<Rightarrow>
                           (case eval (substr loc_str (fst trimmed) (snd trimmed)) of
                              Inl e \<Rightarrow> Some (Inl e)
                            | Inr parse_val \<Rightarrow>
                                subst_braces my_constants eval show_double recursive_symbols str
                                  (replace loc_str pos (pos_end - pos + 1)
                                     (show_double parse_val)))))))"

declare subst_braces.simps [code]

text \<open>\<^verbatim>\<open>fillWithParser (pp, str, std::string& val, bool do_escape_backtransform=true)\<close>:
  the escapes, the loop, and the back-transformation when it is asked for.\<close>

definition fillWithParser_string ::
  "(string \<times> string) list \<Rightarrow> (string \<Rightarrow> fatal + double) \<Rightarrow> (double \<Rightarrow> string)
     \<Rightarrow> string list \<Rightarrow> string \<Rightarrow> bool \<Rightarrow> (fatal + string) option" where
  "fillWithParser_string my_constants eval show_double recursive_symbols str
       do_escape_backtransform =
     Option.bind
       (subst_braces my_constants eval show_double recursive_symbols str
          (escape_close (escape_open str)))
       (\<lambda>r. case r of
              Inl e \<Rightarrow> Some (Inl e)
            | Inr loc_str \<Rightarrow>
                Some (Inr (if do_escape_backtransform
                           then unescape_close (unescape_open loc_str)
                           else loc_str)))"

text \<open>Tables for the examples: two symbols that refer to each other, a symbol that
  expands to a number, and an evaluator that knows one expression.\<close>

definition cyclic_constants :: "(string \<times> string) list" where
  "cyclic_constants = [(''a'', ''{b}''), (''b'', ''x{ a }''), (''n'', ''{1+1}{{}}'')]"

definition example_show :: "double \<Rightarrow> string" where
  "example_show v = (if v = Finite 2 then ''2'' else ''nan'')"

definition example_eval2 :: "string \<Rightarrow> fatal + double" where
  "example_eval2 s = (if s = ''1+1'' then Inr (Finite 2) else Inl (ParserError s))"

subsection \<open>Running into a fatal error\<close>

text \<open>
  The shapes of the string that a round of the loop meets, written with the text itself
  rather than with positions. \<open>last_brace loc xs key zs\<close>: the last opening brace of
  \<open>loc\<close> comes after \<open>xs\<close>, it is closed, the text between the braces is \<open>key\<close> with
  spaces around it, and \<open>zs\<close> follows the closing brace. \<open>empty_brace loc xs zs\<close>: the
  same with nothing but spaces between the braces.
\<close>

definition spaces :: "nat \<Rightarrow> string" where
  "spaces n = replicate n (CHR '' '')"

definition last_brace :: "string \<Rightarrow> string \<Rightarrow> string \<Rightarrow> string \<Rightarrow> bool" where
  "last_brace loc xs key zs \<longleftrightarrow>
     (\<exists>n m. loc = xs @ ''{'' @ spaces n @ key @ spaces m @ ''}'' @ zs)
     \<and> key \<noteq> [] \<and> hd key \<noteq> CHR '' '' \<and> last key \<noteq> CHR '' ''
     \<and> CHR ''{'' \<notin> set key \<and> CHR ''}'' \<notin> set key \<and> CHR ''{'' \<notin> set zs"

definition empty_brace :: "string \<Rightarrow> string \<Rightarrow> string \<Rightarrow> bool" where
  "empty_brace loc xs zs \<longleftrightarrow>
     (\<exists>n. loc = xs @ ''{'' @ spaces n @ ''}'' @ zs) \<and> CHR ''{'' \<notin> set zs"

text \<open>
  \<open>runs_into C eval show_double rs str loc e\<close>: the loop, started on \<open>loc\<close> for the input
  \<open>str\<close> with the symbols \<open>rs\<close> in progress, comes to the fatal error \<open>e\<close>, in this round
  or a later one, in this call or a nested one. The errors are: a symbol of
  \<^verbatim>\<open>my_constants\<close> that is in progress (a cycle of references), a brace that is not closed,
  and an abort of the number parser. The messages are those of the source, written out.
\<close>

inductive runs_into ::
  "(string \<times> string) list \<Rightarrow> (string \<Rightarrow> fatal + double) \<Rightarrow> (double \<Rightarrow> string)
     \<Rightarrow> string list \<Rightarrow> string \<Rightarrow> string \<Rightarrow> fatal \<Rightarrow> bool"
  for C :: "(string \<times> string) list" and eval :: "string \<Rightarrow> fatal + double"
    and show_double :: "double \<Rightarrow> string"
where
  recursive_symbol:
    "last_brace loc xs key zs \<Longrightarrow> map_of C key = Some replacer \<Longrightarrow> key \<in> set rs \<Longrightarrow>
     runs_into C eval show_double rs str loc
       (AssertFailed
          (''Expression '' @ [CHR 0x27] @ str @ [CHR 0x27] @ '' contains recursive symbol ''
             @ [CHR 0x27] @ key @ [CHR 0x27] @ ''!'' @ [CHR 0x0A])
          ''recursive_symbols.count(parse_string) == 0'')"
| unclosed_brace:
    "loc = xs @ ''{'' @ ys \<Longrightarrow> CHR ''{'' \<notin> set ys \<Longrightarrow> CHR ''}'' \<notin> set ys \<Longrightarrow>
     runs_into C eval show_double rs str loc
       (AssertFailed
          (''Bad format for input '' @ [CHR 0x27] @ str @ [CHR 0x27] @ '', unclosed brace!''
             @ [CHR 0x0A])
          ''pos_end != std::string::npos'')"
| number_parser:
    "last_brace loc xs key zs \<Longrightarrow> map_of C key = None \<Longrightarrow> eval key = Inl e \<Longrightarrow>
     runs_into C eval show_double rs str loc e"
| in_nested_call:
    "last_brace loc xs key zs \<Longrightarrow> map_of C key = Some replacer \<Longrightarrow> key \<notin> set rs \<Longrightarrow>
     runs_into C eval show_double (key # rs) replacer (escape_close (escape_open replacer)) e \<Longrightarrow>
     runs_into C eval show_double rs str loc e"
| after_symbol:
    "last_brace loc xs key zs \<Longrightarrow> map_of C key = Some replacer \<Longrightarrow> key \<notin> set rs \<Longrightarrow>
     fillWithParser_string C eval show_double (key # rs) replacer False = Some (Inr parse_val) \<Longrightarrow>
     runs_into C eval show_double rs str (xs @ parse_val @ zs) e \<Longrightarrow>
     runs_into C eval show_double rs str loc e"
| after_number:
    "last_brace loc xs key zs \<Longrightarrow> map_of C key = None \<Longrightarrow> eval key = Inr v \<Longrightarrow>
     runs_into C eval show_double rs str (xs @ show_double v @ zs) e \<Longrightarrow>
     runs_into C eval show_double rs str loc e"
| after_empty:
    "empty_brace loc xs zs \<Longrightarrow>
     runs_into C eval show_double rs str (xs @ zs) e \<Longrightarrow>
     runs_into C eval show_double rs str loc e"

text \<open>Tables for further examples: a symbol that refers to itself after a number, as
  met in a later round of its own expansion.\<close>

definition self_constants :: "(string \<times> string) list" where
  "self_constants = [(''a'', ''{a}{1+1}'')]"

section \<open>The predictor-corrector loop (Hipace.H)\<close>

text \<open>
  The members of \<^verbatim>\<open>class Hipace\<close> that the loop reads and writes, with the defaults of
  the header: \<^verbatim>\<open>m_predcorr_B_error_tolerance = 4e-2\<close>, \<^verbatim>\<open>m_predcorr_max_iterations = 30\<close>,
  \<^verbatim>\<open>m_predcorr_avg_iterations = 0.\<close>, \<^verbatim>\<open>m_predcorr_avg_B_error = 0.\<close>
\<close>

record predcorr_state =
  m_predcorr_B_error_tolerance :: real
  m_predcorr_max_iterations :: nat
  m_predcorr_avg_iterations :: real
  m_predcorr_avg_B_error :: real

definition default_predcorr :: predcorr_state where
  "default_predcorr =
     \<lparr>m_predcorr_B_error_tolerance = 4 / 100, m_predcorr_max_iterations = 30,
      m_predcorr_avg_iterations = 0, m_predcorr_avg_B_error = 0\<rparr>"

text \<open>
  Modelled from the spec: the body of \<^verbatim>\<open>Hipace::PredictorCorrectorLoopToSolveBxBy\<close> is
  not among the sources (the header declares it). Section 4.3 of the specification: one
  iteration advances the plasma with the current guess, deposits, solves for \<open>Bx, By\<close>,
  mixes and computes the relative error; the loop ends when the error is below the
  tolerance and otherwise repeats up to the maximum iteration count. \<open>iteration\<close> stands
  for steps 2 to 5 and returns the mixed field with its relative error; \<open>B\<close> is the field
  estimate, \<open>n\<close> the iterations still allowed, \<open>i_iter\<close> the iterations done.
\<close>

fun predcorr_iterate ::
  "('b \<Rightarrow> 'b \<times> real) \<Rightarrow> real \<Rightarrow> nat \<Rightarrow> nat \<Rightarrow> 'b \<Rightarrow> real \<Rightarrow> 'b \<times> nat \<times> real" where
  "predcorr_iterate iteration tol 0 i_iter B err = (B, i_iter, err)"
| "predcorr_iterate iteration tol (Suc n) i_iter B err =
     (let B' = fst (iteration B); err' = snd (iteration B)
      in if err' < tol then (B', i_iter + 1, err')
         else predcorr_iterate iteration tol n (i_iter + 1) B' err')"

text \<open>The field estimate after \<open>k\<close> iterations from \<open>B\<close>.\<close>

fun estimate_after :: "('b \<Rightarrow> 'b \<times> real) \<Rightarrow> nat \<Rightarrow> 'b \<Rightarrow> 'b" where
  "estimate_after iteration 0 B = B"
| "estimate_after iteration (Suc k) B = estimate_after iteration k (fst (iteration B))"

text \<open>
  Modelled from the spec: step 6 and section 7 of the specification. When the count is
  exhausted the loop proceeds with the estimate it has; the iteration count and the final
  error enter the running diagnostics. The specification does not give the formula of
  the running average: \<open>accumulate\<close> takes the diagnostic so far and the new sample. The
  result is the field estimate for the next slice and the updated members.
\<close>

definition PredictorCorrectorLoopToSolveBxBy ::
  "('b \<Rightarrow> 'b \<times> real) \<Rightarrow> (real \<Rightarrow> real \<Rightarrow> real) \<Rightarrow> predcorr_state \<Rightarrow> 'b \<Rightarrow> real
     \<Rightarrow> 'b \<times> predcorr_state" where
  "PredictorCorrectorLoopToSolveBxBy iteration accumulate h B_guess err0 =
     (let res = predcorr_iterate iteration (m_predcorr_B_error_tolerance h)
                  (m_predcorr_max_iterations h) 0 B_guess err0;
          i_iter = fst (snd res);
          relative_Bfield_error = snd (snd res)
      in (fst res,
          h\<lparr>m_predcorr_avg_iterations := accumulate (m_predcorr_avg_iterations h) (real i_iter),
            m_predcorr_avg_B_error := accumulate (m_predcorr_avg_B_error h) relative_Bfield_error\<rparr>))"

text \<open>An iteration for the examples that never converges: the estimate counts the
  iterations and the error stays 1.\<close>

definition stalled_iteration :: "nat \<Rightarrow> nat \<times> real" where
  "stalled_iteration B = (B + 1, 1)"

section \<open>The adaptive time step (AdaptiveTimeStep.H)\<close>

text \<open>
  The members of \<^verbatim>\<open>class AdaptiveTimeStep\<close> that bound the step. \<^verbatim>\<open>m_dt_max\<close> is
  infinite by default: \<open>None\<close> is no bound. The defaults of the header are
  \<^verbatim>\<open>m_nt_per_betatron = 20.\<close> and \<^verbatim>\<open>m_threshold_uz = 2.\<close>
\<close>

record AdaptiveTimeStep =
  m_nt_per_betatron :: real
  m_dt_max :: "real option"
  m_min_uz_mq :: real
  m_threshold_uz :: real

text \<open>
  Modelled from the spec: the body of \<^verbatim>\<open>AdaptiveTimeStep::CalculateFromMinUz\<close> is not
  among the sources (the header declares it). Section 4.4 of the specification: the step
  gives the configured number of steps per betatron period; below the momentum threshold
  the step is not decreased; the maximum time step is never exceeded. \<open>betatron_period\<close>
  is the period for the slowest particles, whose formula the specification does not give.
\<close>

definition CalculateFromMinUz :: "AdaptiveTimeStep \<Rightarrow> (real \<Rightarrow> real) \<Rightarrow> real \<Rightarrow> real" where
  "CalculateFromMinUz a betatron_period dt =
     (let new_dt = (if m_min_uz_mq a > m_threshold_uz a
                    then betatron_period (m_min_uz_mq a) / m_nt_per_betatron a
                    else dt)
      in case m_dt_max a of None \<Rightarrow> new_dt | Some dt_max \<Rightarrow> min new_dt dt_max)"

text \<open>A controller for the examples, with the defaults of the header, a bound of 5 and
  slow particles.\<close>

definition slow_beam :: AdaptiveTimeStep where
  "slow_beam = \<lparr>m_nt_per_betatron = 20, m_dt_max = Some 5, m_min_uz_mq = 1, m_threshold_uz = 2\<rparr>"

chapter \<open>Properties\<close>

section \<open>The field-component registry\<close>

lemma count_zero_iff: "count_key m str = 0 \<longleftrightarrow> str \<notin> fst ` set m"
  by (induction m) (auto simp: count_key_def)

lemma count_zero_map_of: "count_key m str = 0 \<longleftrightarrow> map_of m str = None"
  by (simp add: count_zero_iff map_of_eq_None_iff)

lemma sublist_concat_map: "x \<in> set xs \<Longrightarrow> sublist (f x) (concat (map f xs))"
proof (induction xs)
  case Nil
  then show ?case by simp
next
  case (Cons a xs)
  show ?case
  proof (cases "x = a")
    case True
    have "sublist (f a) ([] @ f a @ concat (map f xs))" by (rule sublist_appendI)
    with True show ?thesis by simp
  next
    case False
    with Cons have "sublist (f x) (concat (map f xs))" by simp
    then obtain ps ss where "concat (map f xs) = ps @ f x @ ss"
      by (auto simp: sublist_def)
    then have "concat (map f (a # xs)) = (f a @ ps) @ f x @ ss" by simp
    then show ?thesis unfolding sublist_def by blast
  qed
qed

lemma alloc_entry_listed:
  assumes "p \<in> set m"
  shows "sublist (alloc_entry p) (not_allocated_message m str)"
proof -
  have "sublist (alloc_entry p) (concat (map alloc_entry m))"
    using assms by (rule sublist_concat_map)
  then obtain ps ss where "concat (map alloc_entry m) = ps @ alloc_entry p @ ss"
    by (auto simp: sublist_def)
  then have "not_allocated_message m str =
      (''Component '' @ quoted str @ '' is not allocated'' @ [CHR 0x0A] @ ''Fields allocated:'' @ ps)
        @ alloc_entry p @ (ss @ [CHR 0x0A])"
    by (simp add: not_allocated_message_def)
  then show ?thesis
    unfolding sublist_def by blast
qed

lemma emplace_keys: "fst ` set (emplace k v m) = insert k (fst ` set m)"
  by (induction m) auto

lemma multi_emplace_keys: "fst ` set (fst (multi_emplace n comps m)) = set comps \<union> fst ` set m"
  by (induction comps arbitrary: n m) (auto simp: emplace_keys)

lemma assert_map_index_Some: "map_of m str = Some n \<Longrightarrow> assert_map_index m str = Inr n"
  by (simp add: assert_map_index_def count_zero_map_of at_key_def)

lemma assert_map_index_None:
  "map_of m str = None \<Longrightarrow>
     assert_map_index m str = Inl (AssertFailed (not_allocated_message m str) ''count(str)!=0'')"
  by (simp add: assert_map_index_def count_zero_map_of)

lemma alloc_entry_text:
  "alloc_entry = (\<lambda>p. '' '' @ [CHR 0x27] @ fst p @ [CHR 0x27] @ '' ('' @ show_int (snd p) @ ''),'')"
  by (rule ext) (simp add: alloc_entry_def quoted_def)

lemma not_allocated_message_text:
  "not_allocated_message m str =
     ''Component '' @ [CHR 0x27] @ str @ [CHR 0x27] @ '' is not allocated'' @ [CHR 0x0A]
       @ ''Fields allocated:''
       @ concat (map (\<lambda>p. '' '' @ [CHR 0x27] @ fst p @ [CHR 0x27] @ '' (''
                          @ show_int (snd p) @ ''),'') m)
       @ [CHR 0x0A]"
  unfolding not_allocated_message_def alloc_entry_text by (simp add: quoted_def)

lemma name_in_message: "sublist str (not_allocated_message m str)"
proof -
  have "not_allocated_message m str
      = (''Component '' @ [CHR 0x27]) @ str
          @ ([CHR 0x27] @ '' is not allocated'' @ [CHR 0x0A] @ ''Fields allocated:''
             @ concat (map alloc_entry m) @ [CHR 0x0A])"
    by (simp add: not_allocated_message_def quoted_def)
  then show ?thesis unfolding sublist_def by blast
qed

lemma allocated_name_in_message:
  assumes "p \<in> set m"
  shows "sublist (fst p) (not_allocated_message m str)"
proof -
  from alloc_entry_listed [OF assms, of str] obtain ps ss where
    "not_allocated_message m str = ps @ alloc_entry p @ ss"
    by (auto simp: sublist_def)
  then have "not_allocated_message m str
      = (ps @ '' '' @ [CHR 0x27]) @ fst p @ ([CHR 0x27] @ '' ('' @ show_int (snd p) @ ''),'' @ ss)"
    by (simp add: alloc_entry_def quoted_def)
  then show ?thesis unfolding sublist_def by blast
qed

text \<open>
  C1. For every role and every name: when the name is not registered for the role, the
  lookup is fatal (the assertion \<^verbatim>\<open>count(str)!=0\<close> fails) and the error stream has
  received the text \<^verbatim>\<open>Component '<name>' is not allocated\<close>, a line break,
  \<^verbatim>\<open>Fields allocated:\<close> and, for every entry of the role in the order of the map, the item
  \<^verbatim>\<open> '<allocated name>' (<index>),\<close>; so the offending name and every allocated name occur
  in it. A registered name yields its index, and a name registered by
  \<^verbatim>\<open>multi_emplace\<close> resolves.
\<close>

theorem assert_map_index_registered_or_fatal:
  fixes Comps :: comps_registry
  shows "(str \<notin> fst ` set (Comps role) \<longrightarrow>
            (\<exists>out. assert_map_index (Comps role) str = Inl (AssertFailed out ''count(str)!=0'')
               \<and> out = ''Component '' @ [CHR 0x27] @ str @ [CHR 0x27] @ '' is not allocated''
                         @ [CHR 0x0A] @ ''Fields allocated:''
                         @ concat (map (\<lambda>p. '' '' @ [CHR 0x27] @ fst p @ [CHR 0x27] @ '' (''
                                            @ show_int (snd p) @ ''),'') (Comps role))
                         @ [CHR 0x0A]
               \<and> sublist str out
               \<and> (\<forall>p \<in> set (Comps role).
                    sublist (fst p) out
                    \<and> sublist ('' '' @ [CHR 0x27] @ fst p @ [CHR 0x27] @ '' (''
                                  @ show_int (snd p) @ ''),'') out)))
       \<and> (\<forall>n. map_of (Comps role) str = Some n \<longrightarrow> assert_map_index (Comps role) str = Inr n)
       \<and> (str \<in> set comps \<longrightarrow>
            (\<exists>i. assert_map_index (fst (multi_emplace n0 comps (Comps role))) str = Inr i))"
proof (intro conjI impI allI)
  assume missing: "str \<notin> fst ` set (Comps role)"
  let ?out = "not_allocated_message (Comps role) str"
  have "assert_map_index (Comps role) str = Inl (AssertFailed ?out ''count(str)!=0'')"
    using missing by (simp add: assert_map_index_None map_of_eq_None_iff)
  moreover have "?out = ''Component '' @ [CHR 0x27] @ str @ [CHR 0x27] @ '' is not allocated''
                         @ [CHR 0x0A] @ ''Fields allocated:''
                         @ concat (map (\<lambda>p. '' '' @ [CHR 0x27] @ fst p @ [CHR 0x27] @ '' (''
                                            @ show_int (snd p) @ ''),'') (Comps role))
                         @ [CHR 0x0A]"
    by (rule not_allocated_message_text)
  moreover have "sublist str ?out" by (rule name_in_message)
  moreover have "\<forall>p \<in> set (Comps role).
                    sublist (fst p) ?out
                    \<and> sublist ('' '' @ [CHR 0x27] @ fst p @ [CHR 0x27] @ '' (''
                                  @ show_int (snd p) @ ''),'') ?out"
  proof
    fix p assume p: "p \<in> set (Comps role)"
    have "sublist (alloc_entry p) ?out" using p by (rule alloc_entry_listed)
    then have "sublist ('' '' @ [CHR 0x27] @ fst p @ [CHR 0x27] @ '' (''
                                  @ show_int (snd p) @ ''),'') ?out"
      by (simp add: alloc_entry_def quoted_def)
    moreover have "sublist (fst p) ?out" using p by (rule allocated_name_in_message)
    ultimately show "sublist (fst p) ?out
                    \<and> sublist ('' '' @ [CHR 0x27] @ fst p @ [CHR 0x27] @ '' (''
                                  @ show_int (snd p) @ ''),'') ?out"
      by simp
  qed
  ultimately show "\<exists>out. assert_map_index (Comps role) str = Inl (AssertFailed out ''count(str)!=0'')
               \<and> out = ''Component '' @ [CHR 0x27] @ str @ [CHR 0x27] @ '' is not allocated''
                         @ [CHR 0x0A] @ ''Fields allocated:''
                         @ concat (map (\<lambda>p. '' '' @ [CHR 0x27] @ fst p @ [CHR 0x27] @ '' (''
                                            @ show_int (snd p) @ ''),'') (Comps role))
                         @ [CHR 0x0A]
               \<and> sublist str out
               \<and> (\<forall>p \<in> set (Comps role).
                    sublist (fst p) out
                    \<and> sublist ('' '' @ [CHR 0x27] @ fst p @ [CHR 0x27] @ '' (''
                                  @ show_int (snd p) @ ''),'') out)"
    by blast
next
  fix n assume "map_of (Comps role) str = Some n"
  then show "assert_map_index (Comps role) str = Inr n"
    by (rule assert_map_index_Some)
next
  assume "str \<in> set comps"
  then have "str \<in> fst ` set (fst (multi_emplace n0 comps (Comps role)))"
    by (simp add: multi_emplace_keys)
  then obtain i where "map_of (fst (multi_emplace n0 comps (Comps role))) str = Some i"
    by (metis map_of_eq_None_iff not_Some_eq)
  then show "\<exists>i. assert_map_index (fst (multi_emplace n0 comps (Comps role))) str = Inr i"
    by (auto dest: assert_map_index_Some)
qed

theorem assert_map_index_registered_or_fatal_witness:
  "''Ez'' \<notin> fst ` set (example_Comps This)
   \<and> assert_map_index (example_Comps This) ''Ez''
       = Inl (AssertFailed
               (''Component '' @ [CHR 0x27] @ ''Ez'' @ [CHR 0x27] @ '' is not allocated''
                  @ [CHR 0x0A] @ ''Fields allocated: '' @ [CHR 0x27] @ ''Bx'' @ [CHR 0x27]
                  @ '' (0), '' @ [CHR 0x27] @ ''By'' @ [CHR 0x27] @ '' (1),'' @ [CHR 0x0A])
               ''count(str)!=0'')
   \<and> assert_map_index (example_Comps Previous) ''By''
       = Inl (AssertFailed
               (''Component '' @ [CHR 0x27] @ ''By'' @ [CHR 0x27] @ '' is not allocated''
                  @ [CHR 0x0A] @ ''Fields allocated: '' @ [CHR 0x27] @ ''Bx'' @ [CHR 0x27]
                  @ '' (2),'' @ [CHR 0x0A])
               ''count(str)!=0'')
   \<and> map_of (example_Comps This) ''By'' = Some 1
   \<and> assert_map_index (example_Comps This) ''By'' = Inr 1
   \<and> assert_map_index (fst (multi_emplace 2 [''Ez''] (example_Comps This))) ''Ez'' = Inr 2
   \<and> show_int 120 = ''120'' \<and> show_int (- 35) = ''-35''"
proof -
  have a: "''Ez'' \<notin> fst ` set (example_Comps This)"
    by (simp add: example_Comps_def)
  have b: "''By'' \<notin> fst ` set (example_Comps Previous)"
    by (simp add: example_Comps_def)
  have c: "map_of (example_Comps This) ''By'' = Some 1"
    by (simp add: example_Comps_def)
  have d: "''Ez'' \<in> set [''Ez'']" by simp
  have items: "show_int 0 = ''0''" "show_int 1 = ''1''" "show_int 2 = ''2''"
    by code_simp+
  from assert_map_index_registered_or_fatal [of "''Ez''" example_Comps This "[''Ez'']" 2] a d
  obtain out where out: "assert_map_index (example_Comps This) ''Ez''
        = Inl (AssertFailed out ''count(str)!=0'')"
      "out = ''Component '' @ [CHR 0x27] @ ''Ez'' @ [CHR 0x27] @ '' is not allocated''
                         @ [CHR 0x0A] @ ''Fields allocated:''
                         @ concat (map (\<lambda>p. '' '' @ [CHR 0x27] @ fst p @ [CHR 0x27] @ '' (''
                                            @ show_int (snd p) @ ''),'') (example_Comps This))
                         @ [CHR 0x0A]"
    by blast
  have first: "assert_map_index (example_Comps This) ''Ez''
       = Inl (AssertFailed
               (''Component '' @ [CHR 0x27] @ ''Ez'' @ [CHR 0x27] @ '' is not allocated''
                  @ [CHR 0x0A] @ ''Fields allocated: '' @ [CHR 0x27] @ ''Bx'' @ [CHR 0x27]
                  @ '' (0), '' @ [CHR 0x27] @ ''By'' @ [CHR 0x27] @ '' (1),'' @ [CHR 0x0A])
               ''count(str)!=0'')"
    unfolding out by (simp add: example_Comps_def items)
  from assert_map_index_registered_or_fatal [of "''By''" example_Comps Previous "[]" 0] b
  obtain out2 where out2: "assert_map_index (example_Comps Previous) ''By''
        = Inl (AssertFailed out2 ''count(str)!=0'')"
      "out2 = ''Component '' @ [CHR 0x27] @ ''By'' @ [CHR 0x27] @ '' is not allocated''
                         @ [CHR 0x0A] @ ''Fields allocated:''
                         @ concat (map (\<lambda>p. '' '' @ [CHR 0x27] @ fst p @ [CHR 0x27] @ '' (''
                                            @ show_int (snd p) @ ''),'') (example_Comps Previous))
                         @ [CHR 0x0A]"
    by blast
  have second: "assert_map_index (example_Comps Previous) ''By''
       = Inl (AssertFailed
               (''Component '' @ [CHR 0x27] @ ''By'' @ [CHR 0x27] @ '' is not allocated''
                  @ [CHR 0x0A] @ ''Fields allocated: '' @ [CHR 0x27] @ ''Bx'' @ [CHR 0x27]
                  @ '' (2),'' @ [CHR 0x0A])
               ''count(str)!=0'')"
    unfolding out2 by (simp add: example_Comps_def items)
  from assert_map_index_registered_or_fatal [of "''By''" example_Comps This "[]" 0] c
  have third: "assert_map_index (example_Comps This) ''By'' = Inr 1" by blast
  have fourth: "assert_map_index (fst (multi_emplace 2 [''Ez''] (example_Comps This))) ''Ez'' = Inr 2"
    by (simp add: example_Comps_def assert_map_index_def count_key_def at_key_def)
  have digits: "show_int 120 = ''120'' \<and> show_int (- 35) = ''-35''"
    by code_simp
  show ?thesis
    using a c first second third fourth digits by blast
qed

section \<open>Floating-point numbers\<close>

lemma double_lt_irrefl [simp]: "\<not> double_lt a a"
  by (cases a) simp_all

lemma double_le_not_gt: "double_le a b \<Longrightarrow> \<not> double_lt b a"
  by (cases a; cases b) simp_all

lemma double_sub_Finite [simp]: "double_sub fl (Finite a) (Finite b) = fl (a - b)"
  by (simp add: double_sub_def)

lemma binade_eq:
  assumes "r \<noteq> 0" "2 powi k \<le> \<bar>r\<bar>" "\<bar>r\<bar> < 2 powi (k + 1)"
  shows "binade r = k"
proof -
  have pos: "0 < \<bar>r\<bar>" using assms(1) by simp
  have p: "(2::real) powr real_of_int j = 2 powi j" for j
    using powr_real_of_int' [of "2::real" j] by simp
  have "2 powr real_of_int k \<le> \<bar>r\<bar> \<and> \<bar>r\<bar> < 2 powr (real_of_int k + 1)"
    using assms(2,3) p [of k] p [of "k + 1"] by simp
  then show ?thesis
    unfolding binade_def using floor_log_eq_powr_iff [OF pos, of 2 k] by simp
qed

lemma binade_bounds:
  assumes "r \<noteq> 0"
  shows "2 powi binade r \<le> \<bar>r\<bar>" "\<bar>r\<bar> < 2 powi (binade r + 1)"
proof -
  have pos: "0 < \<bar>r\<bar>" using assms by simp
  have p: "(2::real) powr real_of_int j = 2 powi j" for j
    using powr_real_of_int' [of "2::real" j] by simp
  have "2 powr real_of_int (binade r) \<le> \<bar>r\<bar> \<and> \<bar>r\<bar> < 2 powr (real_of_int (binade r) + 1)"
    using floor_log_eq_powr_iff [OF pos, of 2 "binade r"] by (simp add: binade_def)
  then show "2 powi binade r \<le> \<bar>r\<bar>" "\<bar>r\<bar> < 2 powi (binade r + 1)"
    using p [of "binade r"] p [of "binade r + 1"] by simp_all
qed

text \<open>How a rounding is computed once the binade of the number is known.\<close>

lemma round_double_eval:
  assumes "r \<noteq> 0" "2 powi k \<le> \<bar>r\<bar>" "\<bar>r\<bar> < 2 powi (k + 1)" "- 1022 \<le> k"
    and "round_to_ulp (k - 52) r = v" "\<bar>v\<bar> \<le> DBL_MAX"
  shows "round_double r = Finite v"
proof -
  have "binade r = k" using assms(1-3) by (rule binade_eq)
  moreover have "max (k - 52) (- 1074) = k - 52" using assms(4) by simp
  ultimately show ?thesis
    using assms(1,5,6) by (auto simp: round_double_def Let_def)
qed

lemma rne_of_int [simp]: "rne (of_int z) = z"
  by (simp add: rne_def)

text \<open>A number with at most 53 significant bits above \<open>2\<^sup>-\<^sup>1\<^sup>0\<^sup>7\<^sup>4\<close> is a binary64 number:
  rounding leaves it as it is.\<close>

lemma round_double_dyadic:
  fixes j :: int and n :: nat
  assumes j: "\<bar>j\<bar> < 2 ^ 53" and n: "n \<le> 1074"
  shows "round_double (of_int j / 2 ^ n) = Finite (of_int j / 2 ^ n)"
proof (cases "j = 0")
  case True
  then show ?thesis by (simp add: round_double_def)
next
  case False
  define r :: real where "r = of_int j / 2 ^ n"
  define e where "e = max (binade r - 52) (- 1074)"
  have r0: "r \<noteq> 0" using False by (simp add: r_def)
  have rj: "r = of_int j * 2 powi (- int n)"
    by (simp add: r_def power_int_minus field_simps)
  have "\<bar>r\<bar> = real_of_int \<bar>j\<bar> / 2 ^ n" by (simp add: r_def abs_divide)
  also have "\<dots> < 2 ^ 53 / 2 ^ n"
  proof -
    have "real_of_int \<bar>j\<bar> < 2 ^ 53" using j by (metis of_int_less_numeral_power_cancel_iff)
    then show ?thesis by (simp add: divide_strict_right_mono)
  qed
  also have "\<dots> = 2 powi (53 - int n)"
    by (simp add: power_int_diff)
  finally have below: "\<bar>r\<bar> < 2 powi (53 - int n)" .
  have "binade r < 53 - int n"
  proof (rule ccontr)
    assume "\<not> binade r < 53 - int n"
    then have "(2::real) powi (53 - int n) \<le> 2 powi binade r"
      by (intro power_int_increasing) simp_all
    with binade_bounds(1) [OF r0] below show False by simp
  qed
  then have e_le: "e \<le> - int n" using n by (simp add: e_def)
  define m where "m = nat (- int n - e)"
  have m: "int m = - int n - e" using e_le by (simp add: m_def)
  have "r / 2 powi e = of_int j * (2 powi (- int n) / 2 powi e)"
    by (simp add: rj)
  also have "2 powi (- int n) / (2::real) powi e = 2 powi (- int n - e)"
    by (simp add: power_int_diff)
  also have "\<dots> = 2 ^ m"
    using m by (metis power_int_of_nat)
  finally have q: "r / 2 powi e = of_int (j * 2 ^ m)" by simp
  have "round_to_ulp e r = of_int (j * 2 ^ m) * 2 powi e"
    unfolding round_to_ulp_def q by (simp only: rne_of_int)
  also have "\<dots> = r / 2 powi e * 2 powi e" using q by simp
  also have "\<dots> = r" by simp
  finally have v: "round_to_ulp e r = r" .
  have "\<bar>r\<bar> < 2 ^ 53"
  proof -
    have "(2::real) powi (53 - int n) \<le> 2 powi 53"
      by (intro power_int_increasing) simp_all
    with below show ?thesis by simp
  qed
  then have "\<bar>r\<bar> \<le> DBL_MAX" by (simp add: DBL_MAX_def)
  then have "\<not> r > DBL_MAX" "\<not> r < - DBL_MAX" by auto
  then have "round_double r = Finite r"
    using r0 v by (simp add: round_double_def Let_def e_def)
  then show ?thesis by (simp add: r_def)
qed

section \<open>Particle boundary conditions\<close>

subsection \<open>The remainder\<close>





subsection \<open>One axis, where no step rounds\<close>








text \<open>\<^verbatim>\<open>CheckDomainBounds::contains\<close> tests the open box: a point on an edge is not
  contained. The functor's test is the complement of the closed box.\<close>

lemma contains_excludes_boundary:
  "\<not> contains lo hi (fst lo) y" "\<not> contains lo hi (fst hi) y"
  "\<not> contains lo hi x (snd lo)" "\<not> contains lo hi x (snd hi)"
  by (simp_all add: contains_def)





text \<open>The edges of the second example box are the binary64 numbers nearest to \<open>0.1\<close> and
  \<open>0.3\<close>.\<close>

lemma tenth_nearest: "round_double (1 / 10) = Finite tenth"
  unfolding tenth_def
  by (rule round_double_eval [where k = "- 4"])
     (simp_all add: round_to_ulp_def rne_def DBL_MAX_def)


text \<open>The four roundings of the periodic branch for the position one unit in the last
  place below the lower edge of that box.\<close>

lemma tenths_length:
  "double_sub round_double (Finite three_tenths) (Finite (- tenth))
     = Finite (7205759403792794 / 2 ^ 54)"
proof -
  have "three_tenths - - tenth = 28823037615171174 / 2 ^ 56"
    by (simp add: three_tenths_def tenth_def)
  moreover have "round_double (28823037615171174 / 2 ^ 56) = Finite (7205759403792794 / 2 ^ 54)"
    by (rule round_double_eval [where k = "- 2"])
       (simp_all add: round_to_ulp_def rne_def DBL_MAX_def)
  ultimately show ?thesis by (simp only: double_sub_Finite)
qed

lemma tenths_offset:
  "double_sub round_double (Finite below_tenth) (Finite (- tenth)) = Finite (- (1 / 2 ^ 56))"
proof -
  have "below_tenth - - tenth = of_int (- 1) / 2 ^ 56"
    by (simp add: below_tenth_def tenth_def)
  moreover have "round_double (of_int (- 1) / 2 ^ 56) = Finite (of_int (- 1) / 2 ^ 56)"
    by (rule round_double_dyadic) simp_all
  ultimately show ?thesis by (simp only: double_sub_Finite) simp
qed




text \<open>
  C2. Absorbing policy, whatever the rounding: a particle whose position \<open>(x, y)\<close> is
  outside the box at the call gets weight zero (component \<open>w_index\<close> of its real data), its
  id is made invalid and the call returns \<open>invalid = true\<close>; position and momentum are
  left as they are. With a weight of zero, any deposit that is a multiple of the weight is
  zero.
\<close>

theorem EnforceBC_absorbing:
  assumes "m_particle_boundary bc = Absorbing"
    and "double_lt x (fst (m_plo bc)) \<or> double_lt y (snd (m_plo bc))
         \<or> double_gt x (fst (m_phi bc)) \<or> double_gt y (snd (m_phi bc))"
  shows "\<exists>r. EnforceBC_call fl bc ptd ip x y ux uy w_index = r
           \<and> invalid r
           \<and> rdata (ptd_out r) w_index ip = 0
           \<and> \<not> id_valid (ptd_out r) ip
           \<and> (\<forall>c. rdata (ptd_out r) w_index ip * c = 0)
           \<and> x_out r = x \<and> y_out r = y \<and> ux_out r = ux \<and> uy_out r = uy"
  using assms by (simp add: EnforceBC_call_def make_invalid_def set_rdata_def)

theorem EnforceBC_absorbing_witness:
  "double_gt (Finite (5 / 2)) (fst (m_phi (unit_box Absorbing)))
   \<and> (\<exists>r. EnforceBC_call round_double (unit_box Absorbing) example_ptd 3
             (Finite (5 / 2)) (Finite (1 / 2)) (Finite 1) (Finite 7) 0 = r
           \<and> invalid r \<and> rdata (ptd_out r) 0 3 = 0 \<and> \<not> id_valid (ptd_out r) 3
           \<and> x_out r = Finite (5 / 2) \<and> ux_out r = Finite 1)
   \<and> rdata example_ptd 0 3 = 1 \<and> id_valid example_ptd 3"
proof -
  have a: "m_particle_boundary (unit_box Absorbing) = Absorbing"
    by (simp add: unit_box_def)
  have b: "double_gt (Finite (5 / 2)) (fst (m_phi (unit_box Absorbing)))"
    by (simp add: unit_box_def double_gt_def)
  then have c: "double_lt (Finite (5 / 2)) (fst (m_plo (unit_box Absorbing)))
      \<or> double_lt (Finite (1 / 2)) (snd (m_plo (unit_box Absorbing)))
      \<or> double_gt (Finite (5 / 2)) (fst (m_phi (unit_box Absorbing)))
      \<or> double_gt (Finite (1 / 2)) (snd (m_phi (unit_box Absorbing)))"
    by blast
  from EnforceBC_absorbing [OF a c, of round_double example_ptd 3 "Finite 1" "Finite 7" 0]
  have "\<exists>r. EnforceBC_call round_double (unit_box Absorbing) example_ptd 3
             (Finite (5 / 2)) (Finite (1 / 2)) (Finite 1) (Finite 7) 0 = r
           \<and> invalid r \<and> rdata (ptd_out r) 0 3 = 0 \<and> \<not> id_valid (ptd_out r) 3
           \<and> x_out r = Finite (5 / 2) \<and> ux_out r = Finite 1"
    by blast
  moreover have "rdata example_ptd 0 3 = 1 \<and> id_valid example_ptd 3"
    by (simp add: example_ptd_def)
  ultimately show ?thesis using b by blast
qed

text \<open>
  C9. For each of the three policies and whatever the rounding, a particle on an edge of
  the box (one coordinate equal to \<open>lo\<close> or \<open>hi\<close>, the other in range) is returned as it
  came: position, momentum and tile data unchanged, \<open>invalid = false\<close>, since the test for
  leaving the box uses strict inequalities.
\<close>

theorem EnforceBC_on_boundary_unchanged:
  assumes "m_plo bc = (lox, loy)" "m_phi bc = (hix, hiy)"
    and "double_le lox hix" "double_le loy hiy"
    and "((x = lox \<or> x = hix) \<and> double_le loy y \<and> double_le y hiy)
         \<or> ((y = loy \<or> y = hiy) \<and> double_le lox x \<and> double_le x hix)"
  shows "EnforceBC_call fl bc ptd ip x y ux uy w_index
           = \<lparr>invalid = False, ptd_out = ptd, x_out = x, y_out = y, ux_out = ux, uy_out = uy\<rparr>"
proof -
  have "\<not> (double_lt x (fst (m_plo bc)) \<or> double_lt y (snd (m_plo bc))
          \<or> double_gt x (fst (m_phi bc)) \<or> double_gt y (snd (m_phi bc)))"
    using assms by (auto simp: double_gt_def dest: double_le_not_gt)
  then show ?thesis
    unfolding EnforceBC_call_def by (simp only: if_False)
qed

theorem EnforceBC_on_boundary_unchanged_witness:
  "EnforceBC_call round_double (unit_box Absorbing) example_ptd 3
       (Finite 1) (Finite (1 / 2)) (Finite 1) (Finite 7) 0
     = \<lparr>invalid = False, ptd_out = example_ptd, x_out = Finite 1, y_out = Finite (1 / 2),
        ux_out = Finite 1, uy_out = Finite 7\<rparr>
   \<and> EnforceBC_call round_double (unit_box Reflecting) example_ptd 3
       (Finite (1 / 2)) (Finite 0) (Finite 1) (Finite 7) 0
     = \<lparr>invalid = False, ptd_out = example_ptd, x_out = Finite (1 / 2), y_out = Finite 0,
        ux_out = Finite 1, uy_out = Finite 7\<rparr>
   \<and> EnforceBC_call round_double (unit_box Periodic) example_ptd 3
       (Finite 0) (Finite 1) (Finite 1) (Finite 7) 0
     = \<lparr>invalid = False, ptd_out = example_ptd, x_out = Finite 0, y_out = Finite 1,
        ux_out = Finite 1, uy_out = Finite 7\<rparr>"
proof -
  have u: "m_plo (unit_box b) = (Finite 0, Finite 0)" "m_phi (unit_box b) = (Finite 1, Finite 1)"
    for b by (simp_all add: unit_box_def)
  show ?thesis
    using EnforceBC_on_boundary_unchanged [where bc = "unit_box Absorbing" and x = "Finite 1"
        and y = "Finite (1 / 2)" and fl = round_double and ptd = example_ptd and ip = 3
        and ux = "Finite 1" and uy = "Finite 7" and w_index = 0, OF u]
      EnforceBC_on_boundary_unchanged [where bc = "unit_box Reflecting" and x = "Finite (1 / 2)"
        and y = "Finite 0" and fl = round_double and ptd = example_ptd and ip = 3
        and ux = "Finite 1" and uy = "Finite 7" and w_index = 0, OF u]
      EnforceBC_on_boundary_unchanged [where bc = "unit_box Periodic" and x = "Finite 0"
        and y = "Finite 1" and fl = round_double and ptd = example_ptd and ip = 3
        and ux = "Finite 1" and uy = "Finite 7" and w_index = 0, OF u]
    by simp
qed




text \<open>
  The reflecting branch in binary64 arithmetic, for the same box and position: the sum
  with \<open>2 * len_x\<close> and the sum with the lower edge are rounded, the result
  \<open>0.7000000000000001\<close> is above the upper edge and is mirrored, and the new position is
  \<open>-0.10000000000000009\<close>, below the lower edge, with the momentum negated. So the
  new position is in \<open>[lo, hi]\<close> only where the arithmetic is exact.
\<close>

lemma EnforceBC_reflecting_rounds_past_edge:
  "double_lt (Finite below_tenth) (fst (m_plo (tenths_box Reflecting)))
   \<and> x_out (EnforceBC_call round_double (tenths_box Reflecting) example_ptd 0
              (Finite below_tenth) (Finite 0) (Finite 1) (Finite 0) 0)
       = Finite (- (7205759403792800 / 2 ^ 56))
   \<and> fst (m_plo (tenths_box Reflecting)) = Finite (- (7205759403792794 / 2 ^ 56))
   \<and> double_lt (x_out (EnforceBC_call round_double (tenths_box Reflecting) example_ptd 0
                         (Finite below_tenth) (Finite 0) (Finite 1) (Finite 0) 0))
        (fst (m_plo (tenths_box Reflecting)))
   \<and> ux_out (EnforceBC_call round_double (tenths_box Reflecting) example_ptd 0
              (Finite below_tenth) (Finite 0) (Finite 1) (Finite 0) 0) = Finite (- 1)"
proof -
  have box: "m_plo (tenths_box Reflecting) = (Finite (- tenth), Finite (- tenth))"
    "m_phi (tenths_box Reflecting) = (Finite three_tenths, Finite three_tenths)"
    "m_particle_boundary (tenths_box Reflecting) = Reflecting"
    by (simp_all add: tenths_box_def)
  have lt: "double_lt (Finite below_tenth) (Finite (- tenth))"
    by (simp add: below_tenth_def tenth_def)
  have twice: "double_mul round_double (Finite 2) (Finite (7205759403792794 / 2 ^ 54))
                 = Finite (7205759403792794 / 2 ^ 53)"
  proof -
    have "2 * (7205759403792794 / 2 ^ 54) = (of_int 7205759403792794 / 2 ^ 53 :: real)"
      by simp
    moreover have "round_double (of_int 7205759403792794 / 2 ^ 53)
                     = Finite (of_int 7205759403792794 / 2 ^ 53)"
      by (rule round_double_dyadic) simp_all
    ultimately show ?thesis by (simp only: double_mul.simps) simp
  qed
  have remainder: "double_fmod (Finite (- (1 / 2 ^ 56))) (Finite (7205759403792794 / 2 ^ 53))
                     = Finite (- (1 / 2 ^ 56))"
    by (simp add: trunc_def ceiling_eq_iff)
  have neg0: "double_lt (Finite (- (1 / 2 ^ 56))) (Finite 0)"
    by simp
  have shifted: "double_add round_double (Finite (- (1 / 2 ^ 56)))
                   (Finite (7205759403792794 / 2 ^ 53)) = Finite (7205759403792794 / 2 ^ 53)"
  proof -
    have "- (1 / 2 ^ 56) + 7205759403792794 / 2 ^ 53 = (57646075230342351 / 2 ^ 56 :: real)"
      by simp
    moreover have "round_double (57646075230342351 / 2 ^ 56)
                     = Finite (7205759403792794 / 2 ^ 53)"
      by (rule round_double_eval [where k = "- 1"])
         (simp_all add: round_to_ulp_def rne_def DBL_MAX_def)
    ultimately show ?thesis by (simp only: double_add.simps)
  qed
  have folded: "double_add round_double (Finite (7205759403792794 / 2 ^ 53)) (Finite (- tenth))
                  = Finite (6305039478318695 / 2 ^ 53)"
  proof -
    have "7205759403792794 / 2 ^ 53 + - tenth = 50440315826549558 / 2 ^ 56"
      by (simp add: tenth_def)
    moreover have "round_double (50440315826549558 / 2 ^ 56)
                     = Finite (6305039478318695 / 2 ^ 53)"
      by (rule round_double_eval [where k = "- 1"])
         (simp_all add: round_to_ulp_def rne_def DBL_MAX_def)
    ultimately show ?thesis by (simp only: double_add.simps)
  qed
  have above: "double_gt (Finite (6305039478318695 / 2 ^ 53)) (Finite three_tenths)"
    by (simp add: double_gt_def three_tenths_def)
  have twice_hi: "double_mul round_double (Finite 2) (Finite three_tenths)
                    = Finite (5404319552844595 / 2 ^ 53)"
  proof -
    have "2 * three_tenths = of_int 5404319552844595 / 2 ^ 53"
      by (simp add: three_tenths_def)
    moreover have "round_double (of_int 5404319552844595 / 2 ^ 53)
                     = Finite (of_int 5404319552844595 / 2 ^ 53)"
      by (rule round_double_dyadic) simp_all
    ultimately show ?thesis by (simp only: double_mul.simps) simp
  qed
  have mirrored: "double_sub round_double (Finite (5404319552844595 / 2 ^ 53))
                    (Finite (6305039478318695 / 2 ^ 53)) = Finite (- (7205759403792800 / 2 ^ 56))"
  proof -
    have "5404319552844595 / 2 ^ 53 - 6305039478318695 / 2 ^ 53
            = (of_int (- 900719925474100) / 2 ^ 53 :: real)"
      by simp
    moreover have "round_double (of_int (- 900719925474100) / 2 ^ 53)
                     = Finite (of_int (- 900719925474100) / 2 ^ 53)"
      by (rule round_double_dyadic) simp_all
    ultimately show ?thesis by (simp only: double_sub_Finite) simp
  qed
  have r: "reflect_axis round_double (Finite (- tenth)) (Finite three_tenths)
             (double_sub round_double (Finite three_tenths) (Finite (- tenth)))
             (Finite below_tenth) (Finite 1)
           = (Finite (- (7205759403792800 / 2 ^ 56)), Finite (- 1))"
    unfolding reflect_axis_def Let_def tenths_length tenths_offset twice remainder
    by (simp only: neg0 if_True shifted folded above twice_hi mirrored double_neg.simps)
  have sel: "x_out (EnforceBC_call round_double (tenths_box Reflecting) example_ptd 0
                     (Finite below_tenth) (Finite 0) (Finite 1) (Finite 0) 0)
             = fst (reflect_axis round_double (Finite (- tenth)) (Finite three_tenths)
                      (double_sub round_double (Finite three_tenths) (Finite (- tenth)))
                      (Finite below_tenth) (Finite 1))"
    "ux_out (EnforceBC_call round_double (tenths_box Reflecting) example_ptd 0
                     (Finite below_tenth) (Finite 0) (Finite 1) (Finite 0) 0)
             = snd (reflect_axis round_double (Finite (- tenth)) (Finite three_tenths)
                      (double_sub round_double (Finite three_tenths) (Finite (- tenth)))
                      (Finite below_tenth) (Finite 1))"
    using lt by (simp_all add: EnforceBC_call_def box Let_def)
  show ?thesis
    unfolding sel r using lt by (simp add: box tenth_def)
qed




section \<open>Fields::shift\<close>

lemma comp_indices_Inr:
  "comp_indices m cs = Inr js \<Longrightarrow> list_all2 (\<lambda>c i. map_of m c = Some i) cs js"
proof (induction cs arbitrary: js)
  case Nil
  then show ?case by simp
next
  case (Cons c cs)
  then show ?case
    by (auto simp: assert_map_index_def at_key_def split: sum.splits if_splits option.splits)
qed

lemma shift_kernel_last_write:
  assumes "fst ` set ps \<inter> snd ` set ps = {}"
  shows "shift_kernel ps a n = (case map_of (rev ps) n of None \<Rightarrow> a n | Some s \<Rightarrow> a s)"
  using assms
proof (induction ps arbitrary: a)
  case Nil
  then show ?case by simp
next
  case (Cons p ps)
  have disj: "fst ` set ps \<inter> snd ` set ps = {}" using Cons.prems by auto
  have src: "s \<noteq> fst p" if "(m, s) \<in> set ps" for m s
  proof -
    from that have "s \<in> snd ` set (p # ps)" by force
    then show ?thesis using Cons.prems by auto
  qed
  have src0: "snd p \<noteq> fst p" using Cons.prems by auto
  let ?b = "a(fst p := a (snd p))"
  have rhs: "map_of (rev (p # ps)) n
      = (case map_of (rev ps) n of None \<Rightarrow> (if n = fst p then Some (snd p) else None)
         | Some s \<Rightarrow> Some s)"
    by (cases p) (auto simp: map_add_def split: option.splits)
  have "shift_kernel (p # ps) a n = shift_kernel ps ?b n" by simp
  also have "\<dots> = (case map_of (rev ps) n of None \<Rightarrow> ?b n | Some s \<Rightarrow> ?b s)"
    by (rule Cons.IH [OF disj])
  also have "\<dots> = (case map_of (rev ps) n of None \<Rightarrow> (if n = fst p then a (snd p) else a n)
                    | Some s \<Rightarrow> a s)"
  proof (cases "map_of (rev ps) n")
    case None
    then show ?thesis by simp
  next
    case (Some s)
    then have "(n, s) \<in> set ps" by (auto dest: map_of_SomeD)
    then have "s \<noteq> fst p" by (rule src)
    with Some show ?thesis by simp
  qed
  finally show ?case
    unfolding rhs by (simp split: option.splits)
qed

lemma shift_kernel_other:
  "n \<notin> fst ` set ps \<Longrightarrow> shift_kernel ps a n = a n"
  by (induction ps arbitrary: a) auto

lemma shift_kernel_idle:
  "(\<And>p. p \<in> set ps \<Longrightarrow> a (fst p) = a (snd p)) \<Longrightarrow> shift_kernel ps a = a"
proof (induction ps arbitrary: a)
  case Nil
  then show ?case by simp
next
  case (Cons p ps)
  have "a(fst p := a (snd p)) = a" using Cons.prems [of p] by (simp add: fun_upd_idem_iff)
  then show ?case using Cons by simp
qed

lemma list_all2_zip_set:
  assumes "list_all2 P xs ys" "list_all2 Q xs zs" "(y, z) \<in> set (zip ys zs)"
  shows "\<exists>x \<in> set xs. P x y \<and> Q x z"
proof -
  from assms(3) obtain i where i: "i < length ys" "i < length zs" "ys ! i = y" "zs ! i = z"
    by (auto simp: in_set_zip)
  have len: "length xs = length ys" "length xs = length zs"
    using assms(1,2) by (auto dest: list_all2_lengthD)
  have "P (xs ! i) y" using assms(1) i len by (auto simp: list_all2_conv_all_nth)
  moreover have "Q (xs ! i) z" using assms(2) i len by (auto simp: list_all2_conv_all_nth)
  moreover have "xs ! i \<in> set xs" using i len by simp
  ultimately show ?thesis by blast
qed

lemma list_all2_zip_mem:
  assumes "list_all2 P xs ys" "list_all2 Q xs zs" "x \<in> set xs"
  shows "\<exists>y z. (y, z) \<in> set (zip ys zs) \<and> P x y \<and> Q x z"
proof -
  from assms(3) obtain i where i: "i < length xs" "xs ! i = x"
    by (auto simp: in_set_conv_nth)
  have len: "length xs = length ys" "length xs = length zs"
    using assms(1,2) by (auto dest: list_all2_lengthD)
  have "P x (ys ! i)" using assms(1) i len by (auto simp: list_all2_conv_all_nth)
  moreover have "Q x (zs ! i)" using assms(2) i len by (auto simp: list_all2_conv_all_nth)
  moreover have "(ys ! i, zs ! i) \<in> set (zip ys zs)"
    using i len by (auto simp: in_set_zip)
  ultimately show ?thesis by blast
qed

lemma shift_Inr_cases:
  assumes "shift Comps F lev dst src comps = Inr F1"
  obtains srcs dsts where
    "comp_indices (Comps src) comps = Inr srcs"
    "comp_indices (Comps dst) comps = Inr dsts"
    "0 \<le> lev" "nat lev < length (m_slices F)"
    "F1 = F\<lparr>m_slices := (m_slices F)[nat lev := (m_slices F ! nat lev)\<lparr>array :=
        (\<lambda>i j. if (i, j) \<in> cells (m_slices F ! nat lev)
                then shift_kernel (zip dsts srcs) (array (m_slices F ! nat lev) i j)
                else array (m_slices F ! nat lev) i j)\<rparr>]\<rparr>"
  using assms
  by (auto simp: shift_def Let_def split: sum.splits if_splits)

lemma distinct_snd_same_key:
  assumes "distinct (map snd m)" "(c, d) \<in> set m" "(c', d) \<in> set m"
  shows "c = c'"
proof -
  have "inj_on snd (set m)" using assms(1) by (simp add: distinct_map)
  from inj_onD [OF this, of "(c, d)" "(c', d)"] assms(2,3)
  show ?thesis by simp
qed

lemma shift_kernel_copies:
  assumes disj: "fst ` set ps \<inter> snd ` set ps = {}"
    and func: "\<And>d s s'. (d, s) \<in> set ps \<Longrightarrow> (d, s') \<in> set ps \<Longrightarrow> s = s'"
    and mem: "(d, s) \<in> set ps"
  shows "shift_kernel ps a d = a s"
proof -
  from mem have "d \<in> fst ` set (rev ps)" by force
  then obtain s' where s': "map_of (rev ps) d = Some s'"
    by (metis map_of_eq_None_iff not_Some_eq)
  then have "(d, s') \<in> set ps" by (auto dest: map_of_SomeD)
  with mem have "s = s'" by (rule func)
  with s' show ?thesis by (simp add: shift_kernel_last_write [OF disj])
qed

text \<open>
  C5, amended. \<^verbatim>\<open>shift\<close> copies. When the two roles use different component indices
  and different names of the destination role have different indices (as a registry
  filled by \<^verbatim>\<open>multi_emplace\<close> from one counter has), and the shift from the source role to
  the destination role succeeds: the shift back succeeds and changes nothing; the named
  components of the source role hold what they held at the start; and at every cell of
  the slice the named components of the destination role hold the copies of the source's,
  value for value.
\<close>

theorem shift_there_and_back_copies:
  assumes roles: "snd ` set (Comps dst) \<inter> snd ` set (Comps src) = {}"
    and inj: "distinct (map snd (Comps dst))"
    and there: "shift Comps F lev dst src comps = Inr F1"
  shows "shift_there_and_back Comps F lev dst src comps = Inr F1
       \<and> (\<forall>c \<in> set comps. \<forall>i j.
            comp_value Comps F1 lev src c i j = comp_value Comps F lev src c i j)
       \<and> (\<forall>c \<in> set comps. \<forall>i j. (i, j) \<in> cells (m_slices F ! nat lev) \<longrightarrow>
            comp_value Comps F1 lev dst c i j = comp_value Comps F lev src c i j)"
proof -
  from there obtain srcs dsts where
    srcs: "comp_indices (Comps src) comps = Inr srcs" and
    dsts: "comp_indices (Comps dst) comps = Inr dsts" and
    lev: "0 \<le> lev" "nat lev < length (m_slices F)" and
    F1: "F1 = F\<lparr>m_slices := (m_slices F)[nat lev := (m_slices F ! nat lev)\<lparr>array :=
        (\<lambda>i j. if (i, j) \<in> cells (m_slices F ! nat lev)
                then shift_kernel (zip dsts srcs) (array (m_slices F ! nat lev) i j)
                else array (m_slices F ! nat lev) i j)\<rparr>]\<rparr>"
    by (rule shift_Inr_cases)
  let ?mfab = "m_slices F ! nat lev"
  let ?ps = "zip dsts srcs"
  let ?arr = "\<lambda>i j. if (i, j) \<in> cells ?mfab then shift_kernel ?ps (array ?mfab i j)
                     else array ?mfab i j"
  have A: "list_all2 (\<lambda>c i. map_of (Comps dst) c = Some i) comps dsts"
    using dsts by (rule comp_indices_Inr)
  have B: "list_all2 (\<lambda>c i. map_of (Comps src) c = Some i) comps srcs"
    using srcs by (rule comp_indices_Inr)
  have pair: "\<exists>c \<in> set comps. map_of (Comps dst) c = Some d \<and> map_of (Comps src) c = Some s"
    if "(d, s) \<in> set ?ps" for d s
    using list_all2_zip_set [OF A B that] .
  have disj: "fst ` set ?ps \<inter> snd ` set ?ps = {}"
  proof (rule ccontr)
    assume "fst ` set ?ps \<inter> snd ` set ?ps \<noteq> {}"
    then obtain n d s where n: "(n, s) \<in> set ?ps" "(d, n) \<in> set ?ps" by fastforce
    from pair [OF n(1)] have "n \<in> snd ` set (Comps dst)"
      by (force dest: map_of_SomeD)
    moreover from pair [OF n(2)] have "n \<in> snd ` set (Comps src)"
      by (force dest: map_of_SomeD)
    ultimately show False using roles by blast
  qed
  have func: "s = s'" if "(d, s) \<in> set ?ps" "(d, s') \<in> set ?ps" for d s s'
  proof -
    from pair [OF that(1)] obtain c where
      c: "map_of (Comps dst) c = Some d" "map_of (Comps src) c = Some s" by blast
    from pair [OF that(2)] obtain c' where
      c': "map_of (Comps dst) c' = Some d" "map_of (Comps src) c' = Some s'" by blast
    have "c = c'"
      using inj c(1) c'(1) by (auto intro: distinct_snd_same_key dest: map_of_SomeD)
    with c(2) c'(2) show ?thesis by simp
  qed
  have src_kept: "shift_kernel ?ps a s = a s" if "(d, s) \<in> set ?ps" for a :: "int \<Rightarrow> 'a" and d s
  proof -
    from that have "s \<in> snd ` set ?ps" by force
    with disj have "s \<notin> fst ` set ?ps" by blast
    then show ?thesis by (rule shift_kernel_other)
  qed
  have dst_copy: "shift_kernel ?ps a d = a s" if "(d, s) \<in> set ?ps" for a :: "int \<Rightarrow> 'a" and d s
    using disj func that by (rule shift_kernel_copies)
  have idle: "shift_kernel (zip srcs dsts) (shift_kernel ?ps a) = shift_kernel ?ps a"
    for a :: "int \<Rightarrow> 'a"
  proof (rule shift_kernel_idle)
    fix p assume "p \<in> set (zip srcs dsts)"
    then obtain n where "srcs ! n = fst p" "dsts ! n = snd p" "n < length srcs" "n < length dsts"
      unfolding in_set_zip by blast
    then have "(snd p, fst p) \<in> set ?ps"
      unfolding in_set_zip by auto
    then show "shift_kernel ?ps a (fst p) = shift_kernel ?ps a (snd p)"
      using src_kept dst_copy by metis
  qed
  have m1: "m_slices F1 = (m_slices F)[nat lev := ?mfab\<lparr>array := ?arr\<rparr>]"
    by (simp add: F1)
  have at1: "m_slices F1 ! nat lev = ?mfab\<lparr>array := ?arr\<rparr>"
    using lev by (simp add: m1)
  have len1: "nat lev < length (m_slices F1)"
    using lev by (simp add: m1)
  let ?m1 = "m_slices F1 ! nat lev"
  let ?arr1 = "\<lambda>i j. if (i, j) \<in> cells ?m1
                      then shift_kernel (zip srcs dsts) (array ?m1 i j)
                      else array ?m1 i j"
  have "?arr1 = array ?m1"
    by (intro ext) (simp add: at1 idle)
  then have upd: "?m1\<lparr>array := ?arr1\<rparr> = ?m1"
    by simp
  have "shift Comps F1 lev src dst comps
      = Inr (F1\<lparr>m_slices := (m_slices F1)[nat lev := ?m1\<lparr>array := ?arr1\<rparr>]\<rparr>)"
    unfolding shift_def Let_def using srcs dsts lev len1 by simp
  also have "\<dots> = Inr F1"
    unfolding upd by simp
  finally have ret: "shift Comps F1 lev src dst comps = Inr F1" .
  have both: "shift_there_and_back Comps F lev dst src comps = Inr F1"
    by (simp add: shift_there_and_back_def there ret)
  have src_same: "comp_value Comps F1 lev src c i j = comp_value Comps F lev src c i j"
    if "c \<in> set comps" for c i j
  proof -
    from list_all2_zip_mem [OF A B that] obtain d s where
      ds: "(d, s) \<in> set ?ps" "map_of (Comps src) c = Some s" by blast
    then have "assert_map_index (Comps src) c = Inr s" by (simp add: assert_map_index_Some)
    then show ?thesis
      using src_kept [OF ds(1)] by (simp add: comp_value_def at1)
  qed
  have dst_same: "comp_value Comps F1 lev dst c i j = comp_value Comps F lev src c i j"
    if "c \<in> set comps" "(i, j) \<in> cells ?mfab" for c i j
  proof -
    from list_all2_zip_mem [OF A B that(1)] obtain d s where
      ds: "(d, s) \<in> set ?ps" "map_of (Comps dst) c = Some d" "map_of (Comps src) c = Some s"
      by blast
    then have "assert_map_index (Comps src) c = Inr s" "assert_map_index (Comps dst) c = Inr d"
      by (simp_all add: assert_map_index_Some)
    then show ?thesis
      using dst_copy [OF ds(1)] that(2) by (simp add: comp_value_def at1)
  qed
  show ?thesis
    using both src_same dst_same by blast
qed

lemma example_shift_there:
  "\<exists>F1. shift example_Comps example_Fields 0 Previous This [''Bx''] = Inr F1"
  by (simp add: shift_def Let_def example_Comps_def example_Fields_def assert_map_index_def
      count_key_def at_key_def)

text \<open>
  C5, as stated, fails: with \<^verbatim>\<open>Bx\<close> of the previous slice holding 12 and \<^verbatim>\<open>Bx\<close> of the
  current slice holding 10, the shift from current to previous followed by the shift from
  previous to current leaves 10 in the previous slice. The destination's contents are
  overwritten by the first shift, not exchanged.
\<close>

theorem shift_there_and_back_loses_destination:
  "comp_value example_Comps example_Fields 0 Previous ''Bx'' 0 0 = Some 12
   \<and> comp_value example_Comps example_Fields 0 This ''Bx'' 0 0 = Some 10
   \<and> result_comp_value example_Comps
        (shift_there_and_back example_Comps example_Fields 0 Previous This [''Bx''])
        0 Previous ''Bx'' 0 0 = Some 10"
  by (simp add: result_comp_value_def comp_value_def shift_there_and_back_def shift_def Let_def
      example_Comps_def example_Fields_def assert_map_index_def count_key_def at_key_def)

theorem shift_there_and_back_copies_witness:
  "\<exists>F1. shift example_Comps example_Fields 0 Previous This [''Bx''] = Inr F1
     \<and> shift_there_and_back example_Comps example_Fields 0 Previous This [''Bx''] = Inr F1
     \<and> comp_value example_Comps F1 0 This ''Bx'' 0 0 = Some 10
     \<and> comp_value example_Comps F1 0 Previous ''Bx'' 0 0 = Some 10"
proof -
  obtain F1 where there: "shift example_Comps example_Fields 0 Previous This [''Bx''] = Inr F1"
    using example_shift_there by blast
  have roles: "snd ` set (example_Comps Previous) \<inter> snd ` set (example_Comps This) = {}"
    by (simp add: example_Comps_def)
  have inj: "distinct (map snd (example_Comps Previous))"
    by (simp add: example_Comps_def)
  have cell: "(0, 0) \<in> cells (m_slices example_Fields ! nat 0)"
    by (simp add: example_Fields_def)
  have src: "comp_value example_Comps example_Fields 0 This ''Bx'' 0 0 = Some 10"
    by (simp add: comp_value_def example_Comps_def example_Fields_def assert_map_index_def
        count_key_def at_key_def)
  from shift_there_and_back_copies [OF roles inj there] cell src
  have "shift_there_and_back example_Comps example_Fields 0 Previous This [''Bx''] = Inr F1"
    and "comp_value example_Comps F1 0 This ''Bx'' 0 0 = Some 10"
    and "comp_value example_Comps F1 0 Previous ''Bx'' 0 0 = Some 10"
    by simp_all
  with there show ?thesis by blast
qed

section \<open>Parsing into a narrower type\<close>

lemma sint_ucast_in_range:
  fixes v :: "64 word"
  assumes "- 2147483648 \<le> sint v" "sint v \<le> 2147483647"
  shows "sint (ucast v :: 32 word) = sint v"
proof -
  have "sint (ucast v :: 32 word) = signed_take_bit 31 (uint v)"
    by (simp add: signed_ucast_eq)
  also have "\<dots> = signed_take_bit 31 (signed_take_bit 63 (uint v))"
    by simp
  also have "\<dots> = signed_take_bit 31 (sint v)"
    by (simp add: sint_uint)
  also have "\<dots> = sint v"
    using assms by (intro signed_take_bit_int_eq_self) simp_all
  finally show ?thesis .
qed

lemma INT_limits: "sint (scast INT_MAX :: 64 word) = 2147483647"
  "sint (scast INT_LOWEST :: 64 word) = - 2147483648"
  by (simp_all add: INT_MAX_def INT_LOWEST_def)

lemma int_range_iff:
  fixes v :: "64 word"
  shows "v \<le>s scast INT_MAX \<and> scast INT_LOWEST \<le>s v
     \<longleftrightarrow> - 2147483648 \<le> sint v \<and> sint v \<le> 2147483647"
  by (auto simp: word_sle_eq INT_limits)

lemma float_range_iff:
  "double_le v (Finite FLT_MAX) \<and> double_ge v (Finite FLT_LOWEST)
     \<longleftrightarrow> (\<exists>r. v = Finite r \<and> - FLT_MAX \<le> r \<and> r \<le> FLT_MAX)"
  by (cases v) (auto simp: double_ge_def FLT_LOWEST_def)

text \<open>
  C8. A value parsed for a \<^verbatim>\<open>float\<close> or an \<^verbatim>\<open>int\<close>: when the \<^verbatim>\<open>double\<close> is a finite
  number between \<open>- FLT_MAX\<close> and \<open>FLT_MAX\<close>, its cast is stored and no error is raised;
  otherwise (a larger magnitude, an infinity, NaN) the run ends with the message
  \<^verbatim>\<open>Error: Overflow detected when casting to float\<close>. When the 64-bit integer lies between
  \<open>-2\<^sup>3\<^sup>1\<close> and \<open>2\<^sup>3\<^sup>1 - 1\<close>, the stored \<^verbatim>\<open>int\<close> has the same value; otherwise the run
  ends with \<^verbatim>\<open>Error: Overflow detected when casting to int\<close>.
\<close>

theorem fillWithParser_narrowing:
  fixes eval :: "string \<Rightarrow> fatal + double" and ieval :: "string \<Rightarrow> fatal + 64 word"
    and cast :: "double \<Rightarrow> 'f"
  shows "(eval str = Inr v \<longrightarrow>
            ((\<exists>r. v = Finite r \<and> - FLT_MAX \<le> r \<and> r \<le> FLT_MAX) \<longrightarrow>
               fillWithParser_float eval cast str = Inr (cast v))
          \<and> (\<not> (\<exists>r. v = Finite r \<and> - FLT_MAX \<le> r \<and> r \<le> FLT_MAX) \<longrightarrow>
               fillWithParser_float eval cast str
                 = Inl (AssertFailed [] ''Error: Overflow detected when casting to float'')))
       \<and> (ieval str = Inr w \<longrightarrow>
            (- (2 ^ 31) \<le> sint w \<and> sint w \<le> 2 ^ 31 - 1 \<longrightarrow>
               fillWithParser_int ieval str = Inr (ucast w) \<and> sint (ucast w :: 32 word) = sint w)
          \<and> (\<not> (- (2 ^ 31) \<le> sint w \<and> sint w \<le> 2 ^ 31 - 1) \<longrightarrow>
               fillWithParser_int ieval str
                 = Inl (AssertFailed [] ''Error: Overflow detected when casting to int'')))"
proof (intro conjI impI)
  assume "eval str = Inr v" "\<exists>r. v = Finite r \<and> - FLT_MAX \<le> r \<and> r \<le> FLT_MAX"
  then show "fillWithParser_float eval cast str = Inr (cast v)"
    using float_range_iff [of v] by (simp add: fillWithParser_float_def)
next
  assume "eval str = Inr v" "\<not> (\<exists>r. v = Finite r \<and> - FLT_MAX \<le> r \<and> r \<le> FLT_MAX)"
  then show "fillWithParser_float eval cast str
      = Inl (AssertFailed [] ''Error: Overflow detected when casting to float'')"
    using float_range_iff [of v] by (simp add: fillWithParser_float_def)
next
  assume "ieval str = Inr w" "- (2 ^ 31) \<le> sint w \<and> sint w \<le> 2 ^ 31 - 1"
  then show "fillWithParser_int ieval str = Inr (ucast w)"
    using int_range_iff [of w] by (simp add: fillWithParser_int_def)
next
  assume "ieval str = Inr w" "- (2 ^ 31) \<le> sint w \<and> sint w \<le> 2 ^ 31 - 1"
  then show "sint (ucast w :: 32 word) = sint w"
    by (intro sint_ucast_in_range) simp_all
next
  assume "ieval str = Inr w" "\<not> (- (2 ^ 31) \<le> sint w \<and> sint w \<le> 2 ^ 31 - 1)"
  then show "fillWithParser_int ieval str
      = Inl (AssertFailed [] ''Error: Overflow detected when casting to int'')"
    using int_range_iff [of w] by (simp add: fillWithParser_int_def)
qed

theorem fillWithParser_narrowing_witness:
  "fillWithParser_float example_eval example_cast ''1.5'' = Inr (3 / 2)
   \<and> fillWithParser_float example_eval example_cast ''1e39''
       = Inl (AssertFailed [] ''Error: Overflow detected when casting to float'')
   \<and> fillWithParser_int example_ieval ''-7'' = Inr (- 7)
   \<and> fillWithParser_int example_ieval ''2^31''
       = Inl (AssertFailed [] ''Error: Overflow detected when casting to int'')"
proof -
  have e1: "example_eval ''1.5'' = Inr (Finite (3 / 2))"
    and e2: "example_eval ''1e39'' = Inr (Finite (10 ^ 39))"
    and i1: "example_ieval ''-7'' = Inr (- 7)"
    and i2: "example_ieval ''2^31'' = Inr 2147483648"
    by (simp_all add: example_eval_def example_ieval_def)
  have r1: "\<exists>r. Finite (3 / 2) = Finite r \<and> - FLT_MAX \<le> r \<and> r \<le> FLT_MAX"
    by (rule exI [of _ "3 / 2"]) (simp add: FLT_MAX_def)
  have r2: "\<not> (\<exists>r. Finite (10 ^ 39) = Finite r \<and> - FLT_MAX \<le> r \<and> r \<le> FLT_MAX)"
    by (simp add: FLT_MAX_def)
  have s1: "- (2 ^ 31) \<le> sint (- 7 :: 64 word) \<and> sint (- 7 :: 64 word) \<le> 2 ^ 31 - 1"
    by simp
  have s2: "\<not> (- (2 ^ 31) \<le> sint (2147483648 :: 64 word)
              \<and> sint (2147483648 :: 64 word) \<le> 2 ^ 31 - 1)"
    by simp
  have "fillWithParser_float example_eval example_cast ''1.5'' = Inr (example_cast (Finite (3 / 2)))"
    using fillWithParser_narrowing [of example_eval "''1.5''" "Finite (3 / 2)" example_cast
        example_ieval 0] e1 r1 by blast
  moreover have "fillWithParser_float example_eval example_cast ''1e39''
       = Inl (AssertFailed [] ''Error: Overflow detected when casting to float'')"
    using fillWithParser_narrowing [of example_eval "''1e39''" "Finite (10 ^ 39)" example_cast
        example_ieval 0] e2 r2 by blast
  moreover have "fillWithParser_int example_ieval ''-7'' = Inr (ucast (- 7 :: 64 word))"
    using fillWithParser_narrowing [of example_eval "''-7''" NaN example_cast
        example_ieval "- 7"] i1 s1 by blast
  moreover have "fillWithParser_int example_ieval ''2^31''
       = Inl (AssertFailed [] ''Error: Overflow detected when casting to int'')"
    using fillWithParser_narrowing [of example_eval "''2^31''" NaN example_cast
        example_ieval 2147483648] i2 s2 by blast
  moreover have "ucast (- 7 :: 64 word) = (- 7 :: 32 word)" by simp
  ultimately show ?thesis by (simp add: example_cast_def)
qed

section \<open>Brace substitution in string values\<close>

lemma rfind_sub_char_None: "rfind_sub [c] s = None \<Longrightarrow> c \<notin> set s"
  by (induction s) (auto split: option.splits if_splits)

lemma find_sub_from_bound:
  "find_sub_from pat s pos = Some e \<Longrightarrow> pos \<le> e \<and> e + length pat \<le> length s"
  by (auto simp: find_sub_from_def split: if_splits dest: find_sub_bound)

lemma find_sub_from_char_at:
  "find_sub_from [c] s pos = Some e \<Longrightarrow> e < length s \<and> s ! e = c"
  by (auto simp: find_sub_from_def add.commute split: if_splits dest!: find_sub_char_at)

text \<open>The closing brace found lies after the opening one, so \<^verbatim>\<open>pos_end - pos - 1\<close>
  does not wrap around.\<close>

lemma closing_after_opening:
  assumes "rfind_sub ''{'' s = Some pos" "find_sub_from ''}'' s pos = Some pos_end"
  shows "pos < pos_end"
proof -
  have "s ! pos = CHR ''{''" using assms(1) by (auto dest: rfind_sub_char_at)
  moreover have "s ! pos_end = CHR ''}''" using assms(2) by (auto dest: find_sub_from_char_at)
  ultimately have "pos \<noteq> pos_end" by auto
  moreover have "pos \<le> pos_end" using assms(2) by (auto dest: find_sub_from_bound)
  ultimately show ?thesis by simp
qed

lemma count_list_drop_le: "count_list (drop n xs) c \<le> count_list xs c"
proof -
  have "count_list (take n xs @ drop n xs) c = count_list (take n xs) c + count_list (drop n xs) c"
    by (rule count_list_append)
  then show ?thesis by simp
qed

lemma count_replace_brace:
  assumes "rfind_sub [c] s = Some pos" "find_sub_from pat s pos = Some pos_end" "c \<notin> set r"
  shows "count_list (replace s pos (pos_end - pos + 1) r) c < count_list s c"
proof -
  from assms(1) have pos: "pos < length s" "s ! pos = c"
    by (auto dest: rfind_sub_char_at)
  from assms(2) have le: "pos \<le> pos_end" by (auto dest: find_sub_from_bound)
  have split: "s = take pos s @ s ! pos # drop (Suc pos) s"
    using pos(1) by (rule id_take_nth_drop)
  have "count_list s c = count_list (take pos s @ s ! pos # drop (Suc pos) s) c"
    using split by simp
  then have whole: "count_list s c = count_list (take pos s) c + 1 + count_list (drop (Suc pos) s) c"
    using pos(2) by simp
  have "drop (pos + (pos_end - pos + 1)) s = drop (pos_end - pos) (drop (Suc pos) s)"
    using le by (simp add: add.commute)
  then have rest: "count_list (drop (pos + (pos_end - pos + 1)) s) c \<le> count_list (drop (Suc pos) s) c"
    by (simp add: count_list_drop_le del: drop_drop)
  have "count_list r c = 0" using assms(3) by (simp add: count_list_0_iff)
  then have "count_list (replace s pos (pos_end - pos + 1) r) c
      = count_list (take pos s) c + count_list (drop (pos + (pos_end - pos + 1)) s) c"
    by (simp add: replace_def)
  with whole rest show ?thesis by linarith
qed

lemma in_progress_card:
  assumes "map_of C key = Some replacer" "key \<notin> set rs"
  shows "card (fst ` set C - set (key # rs)) < card (fst ` set C - set rs)"
proof (rule psubset_card_mono)
  show "finite (fst ` set C - set rs)" by simp
  have "key \<in> fst ` set C" using assms(1) by (force dest: map_of_SomeD)
  then have "key \<in> fst ` set C - set rs" using assms(2) by simp
  moreover have "key \<notin> fst ` set C - set (key # rs)" by simp
  ultimately show "fst ` set C - set (key # rs) \<subset> fst ` set C - set rs" by auto
qed

lemma subst_braces_returns:
  assumes nb: "\<And>v. CHR ''{'' \<notin> set (show_double v)"
  shows "\<exists>r. subst_braces C eval show_double rs str loc = Some r
           \<and> (\<forall>s. r = Inr s \<longrightarrow> CHR ''{'' \<notin> set s)"
proof (induction "card (fst ` set C - set rs)" arbitrary: rs str loc rule: less_induct)
  case outer: less
  show ?case
  proof (induction "count_list loc (CHR ''{'')" arbitrary: str loc rule: less_induct)
    case inner: less
    show ?case
    proof (cases "rfind_sub ''{'' loc")
      case None
      then show ?thesis
        by (subst subst_braces.simps) (simp add: rfind_sub_char_None)
    next
      case open_at: (Some pos)
      show ?thesis
      proof (cases "find_sub_from ''}'' loc pos")
        case None
        with open_at show ?thesis
          by (subst subst_braces.simps) simp
      next
        case close_at: (Some pos_end)
        have again: "\<exists>r. subst_braces C eval show_double rs str'
              (replace loc pos (pos_end - pos + 1) val) = Some r
            \<and> (\<forall>s. r = Inr s \<longrightarrow> CHR ''{'' \<notin> set s)"
          if "CHR ''{'' \<notin> set val" for val str'
          using inner.hyps [OF count_replace_brace [OF open_at close_at that]] .
        show ?thesis
        proof (cases "trim_spaces loc (pos + 1) (pos_end - pos - 1)")
          case (Inl e)
          with open_at close_at show ?thesis
            by (subst subst_braces.simps) simp
        next
          case trimmed: (Inr t)
          let ?sym = "substr loc (fst t) (snd t)"
          show ?thesis
          proof (cases "snd t = 0")
            case True
            from again [of "[]" str] obtain r where
              "subst_braces C eval show_double rs str (replace loc pos (pos_end - pos + 1) []) = Some r"
              "\<forall>s. r = Inr s \<longrightarrow> CHR ''{'' \<notin> set s"
              by auto
            with open_at close_at trimmed True show ?thesis
              by (subst subst_braces.simps) simp
          next
            case False
            show ?thesis
            proof (cases "map_of C ?sym")
              case None
              show ?thesis
              proof (cases "eval ?sym")
                case (Inl e)
                with open_at close_at trimmed False None show ?thesis
                  by (subst subst_braces.simps) simp
              next
                case (Inr v)
                from again [OF nb, of str v] obtain r where
                  "subst_braces C eval show_double rs str
                     (replace loc pos (pos_end - pos + 1) (show_double v)) = Some r"
                  "\<forall>s. r = Inr s \<longrightarrow> CHR ''{'' \<notin> set s"
                  by auto
                with open_at close_at trimmed False None Inr show ?thesis
                  by (subst subst_braces.simps) simp
              qed
            next
              case known: (Some replacer)
              show ?thesis
              proof (cases "?sym \<in> set rs")
                case True
                with open_at close_at trimmed False known show ?thesis
                  by (subst subst_braces.simps) simp
              next
                case fresh: False
                from outer.hyps [OF in_progress_card [OF known fresh]] obtain r1 where
                  r1: "subst_braces C eval show_double (?sym # rs) replacer
                         (escape_close (escape_open replacer)) = Some r1"
                  "\<forall>s. r1 = Inr s \<longrightarrow> CHR ''{'' \<notin> set s"
                  by blast
                show ?thesis
                proof (cases r1)
                  case (Inl e)
                  with open_at close_at trimmed False known fresh r1(1) show ?thesis
                    by (subst subst_braces.simps) simp
                next
                  case (Inr parse_val)
                  with r1(2) have "CHR ''{'' \<notin> set parse_val" by simp
                  from again [OF this, of str] obtain r where
                    "subst_braces C eval show_double rs str
                       (replace loc pos (pos_end - pos + 1) parse_val) = Some r"
                    "\<forall>s. r = Inr s \<longrightarrow> CHR ''{'' \<notin> set s"
                    by auto
                  with open_at close_at trimmed False known fresh r1(1) Inr show ?thesis
                    by (subst subst_braces.simps) simp
                qed
              qed
            qed
          qed
        qed
      qed
    qed
  qed
qed


lemma rfind_sub_char_append: "rfind_sub [c] (xs @ ys) =
    (case rfind_sub [c] ys of Some i \<Rightarrow> Some (length xs + i) | None \<Rightarrow> rfind_sub [c] xs)"
  by (induction xs) (auto split: option.splits)

lemma rfind_sub_last_char:
  assumes "c \<notin> set zs"
  shows "rfind_sub [c] (xs @ c # zs) = Some (length xs)"
proof -
  have "rfind_sub [c] zs = None"
    using assms by (induction zs) auto
  then have "rfind_sub [c] (c # zs) = Some 0" by simp
  then show ?thesis by (simp add: rfind_sub_char_append)
qed

lemma find_sub_char_absent: "c \<notin> set s \<Longrightarrow> find_sub [c] s = None"
  by (induction s) auto

lemma find_sub_char_first: "c \<notin> set ys \<Longrightarrow> find_sub [c] (ys @ c # zs) = Some (length ys)"
  by (induction ys) auto

lemma find_close_absent:
  assumes "d \<notin> set ys" "c \<noteq> d"
  shows "find_sub_from [d] (xs @ c # ys) (length xs) = None"
  using assms by (simp add: find_sub_from_def find_sub_char_absent)

lemma find_close_first:
  assumes "d \<notin> set key" "c \<noteq> d"
  shows "find_sub_from [d] (xs @ c # key @ d # zs) (length xs) = Some (length xs + 1 + length key)"
proof -
  have "find_sub [d] (c # key @ d # zs) = Some (Suc (length key))"
    using assms find_sub_char_first [of d key zs] by simp
  then show ?thesis by (simp add: find_sub_from_def)
qed

lemma subst_braces_unclosed:
  assumes "CHR ''{'' \<notin> set ys" "CHR ''}'' \<notin> set ys"
  shows "subst_braces C eval show_double rs str (xs @ ''{'' @ ys)
     = Some (Inl (AssertFailed (unclosed_brace_message str) ''pos_end != std::string::npos''))"
proof -
  have o: "rfind_sub ''{'' (xs @ CHR ''{'' # ys) = Some (length xs)"
    using assms(1) by (rule rfind_sub_last_char)
  have c: "find_sub_from ''}'' (xs @ CHR ''{'' # ys) (length xs) = None"
    using assms(2) by (intro find_close_absent) simp_all
  show ?thesis
    by (subst subst_braces.simps) (simp add: o c)
qed

lemma nested_call:
  "fillWithParser_string C eval show_double rs str False
     = subst_braces C eval show_double rs str (escape_close (escape_open str))"
proof (cases "subst_braces C eval show_double rs str (escape_close (escape_open str))")
  case None
  then show ?thesis by (simp add: fillWithParser_string_def)
next
  case (Some r)
  then show ?thesis by (cases r) (simp_all add: fillWithParser_string_def)
qed

lemma trim_leading_spaces:
  assumes "rest \<noteq> []" "hd rest \<noteq> CHR '' '' \<or> k = 0"
  shows "trim_leading (pre @ spaces n @ rest) (length pre) (n + k) = Inr (length pre + n, k)"
  using assms
proof (induction n arbitrary: pre)
  case 0
  have "(pre @ rest) ! length pre = hd rest"
    using 0(1) by (simp add: nth_append hd_conv_nth)
  with 0 show ?case by (auto simp: spaces_def)
next
  case (Suc n)
  have loc: "pre @ spaces (Suc n) @ rest = (pre @ '' '') @ spaces n @ rest"
    by (simp add: spaces_def)
  have "trim_leading (pre @ spaces (Suc n) @ rest) (length pre) (Suc n + k)
      = trim_leading (pre @ spaces (Suc n) @ rest) (length pre + 1) (n + k)"
    by (subst trim_leading.simps) (simp add: spaces_def nth_append)
  also have "\<dots> = Inr (length (pre @ '' '') + n, k)"
    unfolding loc using Suc.IH [OF Suc.prems, of "pre @ '' ''"] by simp
  finally show ?case by simp
qed

lemma trim_trailing_spaces:
  assumes "last key \<noteq> CHR '' ''" "key \<noteq> []"
  shows "trim_trailing (pre @ key @ spaces m @ rest) (length pre) (length key + m)
           = Inr (length pre, length key)"
proof -
  from assms(2) obtain ks k where key: "key = ks @ [k]" by (cases key rule: rev_cases) auto
  with assms(1) have k: "k \<noteq> CHR '' ''" by simp
  show ?thesis
  proof (induction m arbitrary: rest)
    case 0
    have "((pre @ ks) @ k # rest) ! length (pre @ ks) = k" by (rule nth_append_length)
    then have "(pre @ key @ rest) ! (length pre + length ks) = k" by (simp add: key)
    with k show ?case
      by (subst trim_trailing.simps) (simp add: spaces_def key)
  next
    case (Suc m)
    let ?loc = "pre @ key @ spaces (Suc m) @ rest"
    have loc: "?loc = (pre @ key @ spaces m) @ CHR '' '' # rest"
      by (simp add: spaces_def replicate_append_same)
    have "((pre @ key @ spaces m) @ CHR '' '' # rest) ! length (pre @ key @ spaces m) = CHR '' ''"
      by (rule nth_append_length)
    then have sp: "?loc ! (length pre + (length key + m)) = CHR '' ''"
      unfolding loc by (simp add: spaces_def add.assoc)
    have "trim_trailing ?loc (length pre) (length key + Suc m)
        = trim_trailing ?loc (length pre) (length key + m)"
      using sp by (subst trim_trailing.simps) (simp add: spaces_def)
    also have "\<dots> = trim_trailing (pre @ key @ spaces m @ CHR '' '' # rest) (length pre)
                       (length key + m)"
      using loc by simp
    also have "\<dots> = Inr (length pre, length key)" by (rule Suc.IH)
    finally show ?case .
  qed
qed

lemma trim_trailing_none:
  assumes "0 < start" "start \<le> length loc"
  shows "trim_trailing loc start 0 = Inr (start, 0)"
  using assms by (subst trim_trailing.simps) simp

lemma spaces_chars [simp]: "set (spaces n) \<subseteq> {CHR '' ''}"
  by (auto simp: spaces_def)

lemma no_brace_in_spaces [simp]:
  "CHR ''{'' \<notin> set (spaces n)" "CHR ''}'' \<notin> set (spaces n)"
  by (auto simp: spaces_def)

lemma length_spaces [simp]: "length (spaces n) = n"
  by (simp add: spaces_def)

text \<open>What a round reads off a string whose last brace pair holds \<open>key\<close>.\<close>

lemma last_brace_round:
  assumes "loc = xs @ ''{'' @ spaces n @ key @ spaces m @ ''}'' @ zs"
    and "key \<noteq> []" "hd key \<noteq> CHR '' ''" "last key \<noteq> CHR '' ''"
    and "CHR ''{'' \<notin> set key" "CHR ''}'' \<notin> set key" "CHR ''{'' \<notin> set zs"
  shows "rfind_sub ''{'' loc = Some (length xs)"
    and "find_sub_from ''}'' loc (length xs) = Some (length xs + 1 + (n + length key + m))"
    and "trim_spaces loc (length xs + 1) (n + length key + m)
           = Inr (length xs + 1 + n, length key)"
    and "substr loc (length xs + 1 + n) (length key) = key"
    and "replace loc (length xs) (n + length key + m + 2) v = xs @ v @ zs"
proof -
  let ?mid = "spaces n @ key @ spaces m"
  have loc: "loc = xs @ CHR ''{'' # ?mid @ CHR ''}'' # zs"
    using assms(1) by simp
  have "CHR ''{'' \<notin> set (?mid @ CHR ''}'' # zs)"
    using assms(5,7) by simp
  then show "rfind_sub ''{'' loc = Some (length xs)"
    unfolding loc by (rule rfind_sub_last_char)
  have "CHR ''}'' \<notin> set ?mid" using assms(6) by simp
  then have "find_sub_from ''}'' (xs @ CHR ''{'' # ?mid @ CHR ''}'' # zs) (length xs)
      = Some (length xs + 1 + length ?mid)"
    by (intro find_close_first) simp_all
  then show "find_sub_from ''}'' loc (length xs) = Some (length xs + 1 + (n + length key + m))"
    unfolding loc by (simp add: add.assoc)
  have lead: "trim_leading ((xs @ ''{'') @ spaces n @ (key @ spaces m @ CHR ''}'' # zs))
        (length (xs @ ''{'')) (n + (length key + m))
      = Inr (length (xs @ ''{'') + n, length key + m)"
    using assms(2,3) by (intro trim_leading_spaces) simp_all
  have trail: "trim_trailing ((xs @ ''{'' @ spaces n) @ key @ spaces m @ (CHR ''}'' # zs))
        (length (xs @ ''{'' @ spaces n)) (length key + m)
      = Inr (length (xs @ ''{'' @ spaces n), length key)"
    using assms(4,2) by (rule trim_trailing_spaces)
  show "trim_spaces loc (length xs + 1) (n + length key + m)
           = Inr (length xs + 1 + n, length key)"
    using lead trail unfolding loc by (simp add: trim_spaces_def add.assoc)
  have "substr ((xs @ ''{'' @ spaces n) @ key @ (spaces m @ CHR ''}'' # zs))
          (length (xs @ ''{'' @ spaces n)) (length key) = key"
    by (simp add: substr_def)
  then show "substr loc (length xs + 1 + n) (length key) = key"
    unfolding loc by simp
  have "drop (length xs + (n + length key + m + 2)) (xs @ CHR ''{'' # ?mid @ CHR ''}'' # zs) = zs"
    by simp
  then show "replace loc (length xs) (n + length key + m + 2) v = xs @ v @ zs"
    unfolding loc replace_def by simp
qed

lemma empty_brace_round:
  assumes "loc = xs @ ''{'' @ spaces n @ ''}'' @ zs" "CHR ''{'' \<notin> set zs"
  shows "rfind_sub ''{'' loc = Some (length xs)"
    and "find_sub_from ''}'' loc (length xs) = Some (length xs + 1 + n)"
    and "trim_spaces loc (length xs + 1) n = Inr (length xs + 1 + n, 0)"
    and "replace loc (length xs) (n + 2) v = xs @ v @ zs"
proof -
  have loc: "loc = xs @ CHR ''{'' # spaces n @ CHR ''}'' # zs"
    using assms(1) by simp
  have "CHR ''{'' \<notin> set (spaces n @ CHR ''}'' # zs)"
    using assms(2) by simp
  then show "rfind_sub ''{'' loc = Some (length xs)"
    unfolding loc by (rule rfind_sub_last_char)
  have "find_sub_from ''}'' (xs @ CHR ''{'' # spaces n @ CHR ''}'' # zs) (length xs)
      = Some (length xs + 1 + length (spaces n))"
    by (intro find_close_first) simp_all
  then show "find_sub_from ''}'' loc (length xs) = Some (length xs + 1 + n)"
    unfolding loc by simp
  have lead: "trim_leading ((xs @ ''{'') @ spaces n @ (CHR ''}'' # zs)) (length (xs @ ''{'')) (n + 0)
      = Inr (length (xs @ ''{'') + n, 0)"
    by (intro trim_leading_spaces) simp_all
  have trail: "trim_trailing loc (length xs + 1 + n) 0 = Inr (length xs + 1 + n, 0)"
    unfolding loc by (intro trim_trailing_none) simp_all
  show "trim_spaces loc (length xs + 1) n = Inr (length xs + 1 + n, 0)"
    using lead trail unfolding loc by (simp add: trim_spaces_def)
  have "drop (length xs + (n + 2)) (xs @ CHR ''{'' # spaces n @ CHR ''}'' # zs) = zs"
    by simp
  then show "replace loc (length xs) (n + 2) v = xs @ v @ zs"
    unfolding loc replace_def by simp
qed

lemma subst_braces_symbol_round:
  assumes "last_brace loc xs key zs"
  shows "subst_braces C eval show_double rs str loc =
     (case map_of C key of
        Some replacer \<Rightarrow>
          if key \<in> set rs then
            Some (Inl (AssertFailed
              (''Expression '' @ [CHR 0x27] @ str @ [CHR 0x27] @ '' contains recursive symbol ''
                 @ [CHR 0x27] @ key @ [CHR 0x27] @ ''!'' @ [CHR 0x0A])
              ''recursive_symbols.count(parse_string) == 0''))
          else
            Option.bind (fillWithParser_string C eval show_double (key # rs) replacer False)
              (\<lambda>r. case r of
                     Inl e \<Rightarrow> Some (Inl e)
                   | Inr parse_val \<Rightarrow>
                       subst_braces C eval show_double rs str (xs @ parse_val @ zs))
      | None \<Rightarrow>
          (case eval key of
             Inl e \<Rightarrow> Some (Inl e)
           | Inr v \<Rightarrow> subst_braces C eval show_double rs str (xs @ show_double v @ zs)))"
proof -
  from assms obtain n m where
    loc: "loc = xs @ ''{'' @ spaces n @ key @ spaces m @ ''}'' @ zs" and
    key: "key \<noteq> []" "hd key \<noteq> CHR '' ''" "last key \<noteq> CHR '' ''"
      "CHR ''{'' \<notin> set key" "CHR ''}'' \<notin> set key" "CHR ''{'' \<notin> set zs"
    unfolding last_brace_def by blast
  note r = last_brace_round [OF loc key]
  have len: "length xs + 1 + (n + length key + m) - length xs - 1 = n + length key + m"
    "length xs + 1 + (n + length key + m) - length xs + 1 = n + length key + m + 2"
    by simp_all
  have msg: "recursive_symbol_message str key
      = ''Expression '' @ [CHR 0x27] @ str @ [CHR 0x27] @ '' contains recursive symbol ''
          @ [CHR 0x27] @ key @ [CHR 0x27] @ ''!'' @ [CHR 0x0A]"
    by (simp add: recursive_symbol_message_def quoted_def)
  show ?thesis
    apply (subst subst_braces.simps)
    apply (simp only: r(1) r(2) option.case len r(3) sum.case fst_conv snd_conv r(4) r(5)
        nested_call msg)
    using key(1) apply (simp split: option.splits sum.splits)
    done
qed

lemma subst_braces_empty_round:
  assumes "empty_brace loc xs zs"
  shows "subst_braces C eval show_double rs str loc
       = subst_braces C eval show_double rs str (xs @ zs)"
proof -
  from assms obtain n where
    loc: "loc = xs @ ''{'' @ spaces n @ ''}'' @ zs" and zs: "CHR ''{'' \<notin> set zs"
    unfolding empty_brace_def by blast
  note r = empty_brace_round [OF loc zs]
  have len: "length xs + 1 + n - length xs - 1 = n" "length xs + 1 + n - length xs + 1 = n + 2"
    by simp_all
  show ?thesis
    apply (subst subst_braces.simps)
    apply (simp only: r(1) r(2) option.case len r(3) sum.case fst_conv snd_conv r(4))
    apply simp
    done
qed

lemma subst_braces_unclosed_text:
  assumes "loc = xs @ ''{'' @ ys" "CHR ''{'' \<notin> set ys" "CHR ''}'' \<notin> set ys"
  shows "subst_braces C eval show_double rs str loc
     = Some (Inl (AssertFailed
          (''Bad format for input '' @ [CHR 0x27] @ str @ [CHR 0x27] @ '', unclosed brace!''
             @ [CHR 0x0A])
          ''pos_end != std::string::npos''))"
  using subst_braces_unclosed [OF assms(2,3), of C eval show_double rs str xs] assms(1)
  by (simp add: unclosed_brace_message_def quoted_def)

lemma runs_into_fatal:
  assumes "runs_into C eval show_double rs str loc e"
  shows "subst_braces C eval show_double rs str loc = Some (Inl e)"
  using assms
proof (induction rule: runs_into.induct)
  case (recursive_symbol loc xs key zs replacer rs str)
  then show ?case by (simp add: subst_braces_symbol_round)
next
  case (unclosed_brace loc xs ys rs str)
  then show ?case by (intro subst_braces_unclosed_text)
next
  case (number_parser loc xs key zs e rs str)
  then show ?case by (simp add: subst_braces_symbol_round)
next
  case (in_nested_call loc xs key zs replacer rs e str)
  then show ?case by (simp add: subst_braces_symbol_round nested_call)
next
  case (after_symbol loc xs key zs replacer rs parse_val str e)
  then show ?case by (simp add: subst_braces_symbol_round)
next
  case (after_number loc xs key zs v rs str e)
  then show ?case by (simp add: subst_braces_symbol_round)
next
  case (after_empty loc xs zs rs str e)
  then show ?case by (simp add: subst_braces_empty_round)
qed

text \<open>
  C10. Provided the printed form of a number has no opening brace, the brace substitution
  returns on every input, table of constants and set of symbols in progress: with a value
  or with a fatal error, never without end. A symbol of \<^verbatim>\<open>my_constants\<close> in the last brace
  pair is expanded by a nested call on its entry, with the symbol in progress, and the
  value takes the place of the brace pair. Whenever the loop, in any round and at any
  depth of nesting, meets a symbol that is in progress (a cycle of references), the whole
  call ends with the failed assertion after the message
  \<^verbatim>\<open>Expression '<input>' contains recursive symbol '<symbol>'!\<close>; whenever it meets an
  opening brace with no closing brace after it, the call ends with the failed assertion
  after the message \<^verbatim>\<open>Bad format for input '<input>', unclosed brace!\<close>
\<close>

theorem fillWithParser_string_returns:
  assumes "\<And>v. CHR ''{'' \<notin> set (show_double v)"
  shows "(\<exists>r. fillWithParser_string C eval show_double rs str esc = Some r)
       \<and> (runs_into C eval show_double rs str (escape_close (escape_open str)) e \<longrightarrow>
            fillWithParser_string C eval show_double rs str esc = Some (Inl e))
       \<and> (last_brace loc xs key zs \<and> map_of C key = Some replacer \<and> key \<notin> set rs
            \<and> fillWithParser_string C eval show_double (key # rs) replacer False
                = Some (Inr parse_val) \<longrightarrow>
            subst_braces C eval show_double rs str loc
              = subst_braces C eval show_double rs str (xs @ parse_val @ zs))"
proof (intro conjI impI)
  from subst_braces_returns [where show_double = show_double and C = C and eval = eval
      and rs = rs and str = str and loc = "escape_close (escape_open str)", OF assms]
  obtain r where "subst_braces C eval show_double rs str (escape_close (escape_open str)) = Some r"
    by blast
  then show "\<exists>r. fillWithParser_string C eval show_double rs str esc = Some r"
    by (cases r) (simp_all add: fillWithParser_string_def)
next
  assume "runs_into C eval show_double rs str (escape_close (escape_open str)) e"
  then have "subst_braces C eval show_double rs str (escape_close (escape_open str)) = Some (Inl e)"
    by (rule runs_into_fatal)
  then show "fillWithParser_string C eval show_double rs str esc = Some (Inl e)"
    by (simp add: fillWithParser_string_def)
next
  assume "last_brace loc xs key zs \<and> map_of C key = Some replacer \<and> key \<notin> set rs
            \<and> fillWithParser_string C eval show_double (key # rs) replacer False
                = Some (Inr parse_val)"
  then have lb: "last_brace loc xs key zs"
    and rest: "map_of C key = Some replacer" "key \<notin> set rs"
      "fillWithParser_string C eval show_double (key # rs) replacer False = Some (Inr parse_val)"
    by simp_all
  show "subst_braces C eval show_double rs str loc
              = subst_braces C eval show_double rs str (xs @ parse_val @ zs)"
    using subst_braces_symbol_round [OF lb, of C eval show_double rs str] rest by simp
qed

lemma example_show_no_brace: "CHR ''{'' \<notin> set (example_show v)"
  by (simp add: example_show_def)

lemma last_braceI:
  assumes "loc = xs @ ''{'' @ spaces n @ key @ spaces m @ ''}'' @ zs"
    and "key \<noteq> []" "hd key \<noteq> CHR '' ''" "last key \<noteq> CHR '' ''"
    and "CHR ''{'' \<notin> set key" "CHR ''}'' \<notin> set key" "CHR ''{'' \<notin> set zs"
  shows "last_brace loc xs key zs"
  using assms unfolding last_brace_def by blast

text \<open>A symbol that refers to itself is met in the second round of its own expansion,
  after the number \<^verbatim>\<open>{1+1}\<close> has been replaced; the top-level call starts with no symbol
  in progress.\<close>

lemma self_reference_runs_into:
  "runs_into self_constants example_eval2 example_show [] ''v={ a }'' ''v={ a }''
     (AssertFailed
        (''Expression '' @ [CHR 0x27] @ ''{a}{1+1}'' @ [CHR 0x27] @ '' contains recursive symbol ''
           @ [CHR 0x27] @ ''a'' @ [CHR 0x27] @ ''!'' @ [CHR 0x0A])
        ''recursive_symbols.count(parse_string) == 0'')"
proof -
  have top: "last_brace ''v={ a }'' ''v='' ''a'' []"
    by (rule last_braceI [where n = 1 and m = 1]) (simp_all add: spaces_def)
  have entry: "map_of self_constants ''a'' = Some ''{a}{1+1}''"
    by (simp add: self_constants_def)
  have esc: "escape_close (escape_open ''{a}{1+1}'') = ''{a}{1+1}''"
    by simp
  have number: "last_brace ''{a}{1+1}'' ''{a}'' ''1+1'' []"
    by (rule last_braceI [where n = 0 and m = 0]) (simp_all add: spaces_def)
  have no_entry: "map_of self_constants ''1+1'' = None"
    by (simp add: self_constants_def)
  have two: "example_eval2 ''1+1'' = Inr (Finite 2)"
    by (simp add: example_eval2_def)
  have shown: "''{a}'' @ example_show (Finite 2) @ [] = ''{a}2''"
    by (simp add: example_show_def)
  have again: "last_brace ''{a}2'' [] ''a'' ''2''"
    by (rule last_braceI [where n = 0 and m = 0]) (simp_all add: spaces_def)
  have "runs_into self_constants example_eval2 example_show [''a''] ''{a}{1+1}'' ''{a}2''
     (AssertFailed
        (''Expression '' @ [CHR 0x27] @ ''{a}{1+1}'' @ [CHR 0x27] @ '' contains recursive symbol ''
           @ [CHR 0x27] @ ''a'' @ [CHR 0x27] @ ''!'' @ [CHR 0x0A])
        ''recursive_symbols.count(parse_string) == 0'')"
    by (rule runs_into.recursive_symbol [where C = self_constants, OF again entry]) simp
  then have "runs_into self_constants example_eval2 example_show [''a''] ''{a}{1+1}'' ''{a}{1+1}''
     (AssertFailed
        (''Expression '' @ [CHR 0x27] @ ''{a}{1+1}'' @ [CHR 0x27] @ '' contains recursive symbol ''
           @ [CHR 0x27] @ ''a'' @ [CHR 0x27] @ ''!'' @ [CHR 0x0A])
        ''recursive_symbols.count(parse_string) == 0'')"
    using runs_into.after_number [where C = self_constants and eval = example_eval2
        and show_double = example_show and v = "Finite 2", OF number no_entry two] shown
    by simp
  then show ?thesis
    using runs_into.in_nested_call [where C = self_constants and eval = example_eval2
        and show_double = example_show and rs = "[]", OF top entry] esc
    by simp
qed

text \<open>A brace left open by the input is met after the brace pair behind it has been
  replaced.\<close>

lemma later_unclosed_runs_into:
  "runs_into cyclic_constants example_eval2 example_show [] ''x{ {1+1}'' ''x{ {1+1}''
     (AssertFailed
        (''Bad format for input '' @ [CHR 0x27] @ ''x{ {1+1}'' @ [CHR 0x27]
           @ '', unclosed brace!'' @ [CHR 0x0A])
        ''pos_end != std::string::npos'')"
proof -
  have number: "last_brace ''x{ {1+1}'' ''x{ '' ''1+1'' []"
    by (rule last_braceI [where n = 0 and m = 0]) (simp_all add: spaces_def)
  have no_entry: "map_of cyclic_constants ''1+1'' = None"
    by (simp add: cyclic_constants_def)
  have two: "example_eval2 ''1+1'' = Inr (Finite 2)"
    by (simp add: example_eval2_def)
  have shown: "''x{ '' @ example_show (Finite 2) @ [] = ''x{ 2''"
    by (simp add: example_show_def)
  have "runs_into cyclic_constants example_eval2 example_show [] ''x{ {1+1}'' ''x{ 2''
     (AssertFailed
        (''Bad format for input '' @ [CHR 0x27] @ ''x{ {1+1}'' @ [CHR 0x27]
           @ '', unclosed brace!'' @ [CHR 0x0A])
        ''pos_end != std::string::npos'')"
    by (rule runs_into.unclosed_brace [where xs = "''x''" and ys = "'' 2''"]) simp_all
  then show ?thesis
    using runs_into.after_number [where C = cyclic_constants and eval = example_eval2
        and show_double = example_show and v = "Finite 2", OF number no_entry two] shown
    by simp
qed

theorem fillWithParser_string_returns_witness:
  "(\<exists>r. fillWithParser_string cyclic_constants example_eval2 example_show [] ''v={a}'' True
         = Some r)
   \<and> fillWithParser_string self_constants example_eval2 example_show [] ''v={ a }'' True
       = Some (Inl (AssertFailed
           (''Expression '' @ [CHR 0x27] @ ''{a}{1+1}'' @ [CHR 0x27]
              @ '' contains recursive symbol '' @ [CHR 0x27] @ ''a'' @ [CHR 0x27] @ ''!''
              @ [CHR 0x0A])
           ''recursive_symbols.count(parse_string) == 0''))
   \<and> fillWithParser_string cyclic_constants example_eval2 example_show [] ''x{ {1+1}'' True
       = Some (Inl (AssertFailed
           (''Bad format for input '' @ [CHR 0x27] @ ''x{ {1+1}'' @ [CHR 0x27]
              @ '', unclosed brace!'' @ [CHR 0x0A])
           ''pos_end != std::string::npos''))
   \<and> subst_braces cyclic_constants example_eval2 example_show [] ''v={ n }'' ''v={ n }''
       = subst_braces cyclic_constants example_eval2 example_show [] ''v={ n }''
           (''v='' @ [CHR ''2'', CHR 0x01, CHR 0x02])
   \<and> fillWithParser_string cyclic_constants example_eval2 example_show [] ''v={a}'' True
       = Some (Inl (AssertFailed
           (''Expression '' @ [CHR 0x27] @ ''x{ a }'' @ [CHR 0x27]
              @ '' contains recursive symbol '' @ [CHR 0x27] @ ''a'' @ [CHR 0x27] @ ''!''
              @ [CHR 0x0A])
           ''recursive_symbols.count(parse_string) == 0''))
   \<and> fillWithParser_string cyclic_constants example_eval2 example_show []
       ''v={n} {  } {{x}}'' True = Some (Inr ''v=2{}  {x}'')"
proof -
  note inst = fillWithParser_string_returns [where show_double = example_show,
      OF example_show_no_brace]
  have "\<exists>r. fillWithParser_string cyclic_constants example_eval2 example_show [] ''v={a}'' True
         = Some r"
    using inst [of cyclic_constants example_eval2 "[]" "''v={a}''" True] by blast
  moreover have "escape_close (escape_open ''v={ a }'') = ''v={ a }''" by simp
  then have "fillWithParser_string self_constants example_eval2 example_show [] ''v={ a }'' True
       = Some (Inl (AssertFailed
           (''Expression '' @ [CHR 0x27] @ ''{a}{1+1}'' @ [CHR 0x27]
              @ '' contains recursive symbol '' @ [CHR 0x27] @ ''a'' @ [CHR 0x27] @ ''!''
              @ [CHR 0x0A])
           ''recursive_symbols.count(parse_string) == 0''))"
    using inst [where C = self_constants and eval = example_eval2 and rs = "[]"
        and str = "''v={ a }''" and esc = True] self_reference_runs_into
    by simp
  moreover have "escape_close (escape_open ''x{ {1+1}'') = ''x{ {1+1}''" by simp
  then have "fillWithParser_string cyclic_constants example_eval2 example_show [] ''x{ {1+1}'' True
       = Some (Inl (AssertFailed
           (''Bad format for input '' @ [CHR 0x27] @ ''x{ {1+1}'' @ [CHR 0x27]
              @ '', unclosed brace!'' @ [CHR 0x0A])
           ''pos_end != std::string::npos''))"
    using inst [where C = cyclic_constants and eval = example_eval2 and rs = "[]"
        and str = "''x{ {1+1}''" and esc = True] later_unclosed_runs_into
    by simp
  moreover have "subst_braces cyclic_constants example_eval2 example_show [] ''v={ n }'' ''v={ n }''
       = subst_braces cyclic_constants example_eval2 example_show [] ''v={ n }''
           (''v='' @ [CHR ''2'', CHR 0x01, CHR 0x02])"
  proof -
    have lb: "last_brace ''v={ n }'' ''v='' ''n'' []"
      by (rule last_braceI [where n = 1 and m = 1]) (simp_all add: spaces_def)
    have entry: "map_of cyclic_constants ''n'' = Some ''{1+1}{{}}''"
      by (simp add: cyclic_constants_def)
    have nested: "fillWithParser_string cyclic_constants example_eval2 example_show [''n'']
        ''{1+1}{{}}'' False = Some (Inr [CHR ''2'', CHR 0x01, CHR 0x02])"
      by code_simp
    from inst [where C = cyclic_constants and eval = example_eval2 and rs = "[]"
          and str = "''v={ n }''" and loc = "''v={ n }''" and xs = "''v=''" and key = "''n''"
          and zs = "[]" and replacer = "''{1+1}{{}}''"
          and parse_val = "[CHR ''2'', CHR 0x01, CHR 0x02]"] lb entry nested
    show ?thesis by simp
  qed
  moreover have "fillWithParser_string cyclic_constants example_eval2 example_show [] ''v={a}'' True
       = Some (Inl (AssertFailed
           (''Expression '' @ [CHR 0x27] @ ''x{ a }'' @ [CHR 0x27]
              @ '' contains recursive symbol '' @ [CHR 0x27] @ ''a'' @ [CHR 0x27] @ ''!''
              @ [CHR 0x0A])
           ''recursive_symbols.count(parse_string) == 0''))"
    by code_simp
  moreover have "fillWithParser_string cyclic_constants example_eval2 example_show []
       ''v={n} {  } {{x}}'' True = Some (Inr ''v=2{}  {x}'')"
    by code_simp
  ultimately show ?thesis by blast
qed
section \<open>The predictor-corrector loop\<close>

lemma predcorr_iterate_exhausted:
  assumes "\<And>k. k < n \<Longrightarrow> \<not> snd (iteration (estimate_after iteration k B)) < tol" "0 < n"
  shows "predcorr_iterate iteration tol n i B err
       = (estimate_after iteration n B, i + n,
          snd (iteration (estimate_after iteration (n - 1) B)))"
  using assms
proof (induction n arbitrary: i B err)
  case 0
  then show ?case by simp
next
  case (Suc n)
  have first: "\<not> snd (iteration B) < tol" using Suc.prems(1) [of 0] by simp
  have later: "\<not> snd (iteration (estimate_after iteration k (fst (iteration B)))) < tol"
    if "k < n" for k
    using Suc.prems(1) [of "Suc k"] that by simp
  show ?case
  proof (cases n)
    case 0
    with first show ?thesis by (simp add: Let_def)
  next
    case (Suc m)
    then have "0 < n" by simp
    from Suc.IH [where B = "fst (iteration B)" and i = "i + 1" and err = "snd (iteration B)",
        OF later this] first Suc
    show ?thesis by (simp add: Let_def)
  qed
qed

text \<open>
  C6. When none of the allowed iterations brings the relative error below the tolerance,
  the loop stops at the maximum iteration count and returns: the result is the field
  estimate after that many iterations, to go on to the next slice with, and the
  diagnostics of the average iterations and the average B error have taken up the
  iteration count and the final error.
\<close>

theorem PredictorCorrectorLoop_cap_reached:
  assumes "\<And>k. k < m_predcorr_max_iterations h \<Longrightarrow>
             \<not> snd (iteration (estimate_after iteration k B_guess)) < m_predcorr_B_error_tolerance h"
    and "0 < m_predcorr_max_iterations h"
  shows "PredictorCorrectorLoopToSolveBxBy iteration accumulate h B_guess err0
       = (estimate_after iteration (m_predcorr_max_iterations h) B_guess,
          h\<lparr>m_predcorr_avg_iterations :=
               accumulate (m_predcorr_avg_iterations h) (real (m_predcorr_max_iterations h)),
            m_predcorr_avg_B_error :=
               accumulate (m_predcorr_avg_B_error h)
                 (snd (iteration
                    (estimate_after iteration (m_predcorr_max_iterations h - 1) B_guess)))\<rparr>)"
proof -
  have "predcorr_iterate iteration (m_predcorr_B_error_tolerance h) (m_predcorr_max_iterations h)
          0 B_guess err0
      = (estimate_after iteration (m_predcorr_max_iterations h) B_guess,
         0 + m_predcorr_max_iterations h,
         snd (iteration (estimate_after iteration (m_predcorr_max_iterations h - 1) B_guess)))"
    using assms by (rule predcorr_iterate_exhausted)
  then show ?thesis
    by (simp add: PredictorCorrectorLoopToSolveBxBy_def Let_def)
qed

lemma stalled_iteration_estimate: "estimate_after stalled_iteration k B = B + k"
  by (induction k arbitrary: B) (simp_all add: stalled_iteration_def)

theorem PredictorCorrectorLoop_cap_reached_witness:
  "m_predcorr_max_iterations default_predcorr = 30
   \<and> PredictorCorrectorLoopToSolveBxBy stalled_iteration (+) default_predcorr 0 1
       = (30, default_predcorr\<lparr>m_predcorr_avg_iterations := 30, m_predcorr_avg_B_error := 1\<rparr>)"
proof -
  have stall: "\<not> snd (stalled_iteration (estimate_after stalled_iteration k 0))
                  < m_predcorr_B_error_tolerance default_predcorr" for k
    by (simp add: stalled_iteration_def default_predcorr_def)
  have cap: "0 < m_predcorr_max_iterations default_predcorr"
    by (simp add: default_predcorr_def)
  from PredictorCorrectorLoop_cap_reached [of default_predcorr stalled_iteration 0 "(+)" 1,
      OF stall cap]
  show ?thesis
    by (simp add: stalled_iteration_estimate) (simp add: default_predcorr_def stalled_iteration_def)
qed

section \<open>The adaptive time step\<close>

text \<open>
  C7. The step that the controller returns never exceeds \<^verbatim>\<open>m_dt_max\<close>; and when the
  slowest momentum is not above \<^verbatim>\<open>m_threshold_uz\<close> the step is the old one, changed at
  most by that bound: it is not decreased for the sake of the betatron period.
\<close>

theorem CalculateFromMinUz_bounded:
  "(\<forall>dt_max. m_dt_max a = Some dt_max \<longrightarrow> CalculateFromMinUz a betatron_period dt \<le> dt_max)
   \<and> (m_min_uz_mq a \<le> m_threshold_uz a \<longrightarrow>
        CalculateFromMinUz a betatron_period dt
          = (case m_dt_max a of None \<Rightarrow> dt | Some dt_max \<Rightarrow> min dt dt_max))
   \<and> (m_min_uz_mq a \<le> m_threshold_uz a \<and> (\<forall>dt_max. m_dt_max a = Some dt_max \<longrightarrow> dt \<le> dt_max)
        \<longrightarrow> CalculateFromMinUz a betatron_period dt = dt)"
  by (auto simp: CalculateFromMinUz_def Let_def split: option.splits)

theorem CalculateFromMinUz_bounded_witness:
  "m_dt_max slow_beam = Some 5
   \<and> CalculateFromMinUz slow_beam (\<lambda>uz. 1000) 7 \<le> 5
   \<and> m_min_uz_mq slow_beam \<le> m_threshold_uz slow_beam
   \<and> CalculateFromMinUz slow_beam (\<lambda>uz. 1000) 3 = 3"
proof -
  have a: "m_dt_max slow_beam = Some 5" "m_min_uz_mq slow_beam \<le> m_threshold_uz slow_beam"
    by (simp_all add: slow_beam_def)
  have b: "\<forall>dt_max. m_dt_max slow_beam = Some dt_max \<longrightarrow> (3::real) \<le> dt_max"
    by (simp add: slow_beam_def)
  from CalculateFromMinUz_bounded [of slow_beam "\<lambda>uz. 1000" 7] a(1)
  have "CalculateFromMinUz slow_beam (\<lambda>uz. 1000) 7 \<le> 5" by blast
  moreover from CalculateFromMinUz_bounded [of slow_beam "\<lambda>uz. 1000" 3] a(2) b
  have "CalculateFromMinUz slow_beam (\<lambda>uz. 1000) 3 = 3" by blast
  ultimately show ?thesis using a by blast
qed

end
